theory Spec2Isabelle
  imports Main "HOL-Library.Sublist" "HOL-Library.AList" "HOL-Library.Word"
begin

section \<open>The migration engine of the key-value store\<close>

text \<open>
  The development follows the package \<^verbatim>\<open>migrations\<close>: the listing queries
  \<^verbatim>\<open>AppliedMigrations\<close>, \<^verbatim>\<open>PendingMigrations\<close> and
  \<^verbatim>\<open>HasPendingMigrations\<close>, the payload codec, and \<^verbatim>\<open>Migrator.Apply\<close>
  with the commit handler it passes to every unit.

  Go strings and byte slices are both sequences of bytes; both are modelled as
  \<^typ>\<open>string\<close>, whose characters are bytes. A \<^verbatim>\<open>nil\<close> slice that the code
  tells apart from an empty one is an \<^typ>\<open>string option\<close>.
\<close>

subsection \<open>Store, errors\<close>

type_synonym bytes = string

text \<open>The buckets of package \<^verbatim>\<open>dbutils\<close> that the engine names, and all others.\<close>

datatype bucket =
    dbutils_Migrations
  | dbutils_DatabaseInfoBucket
  | dbutils_SyncStageProgress
  | dbutils_SyncStageUnwind
  | dbutils_CliqueBucket
  | OtherBucket string

type_synonym table = "bytes \<rightharpoonup> bytes"
type_synonym db = "bucket \<Rightarrow> table"

text \<open>
  Errors: the three sentinels of the package, an error of the store, an error of the
  decoder, an error that a unit body makes up, and \<^verbatim>\<open>fmt.Errorf\<close> with one
  \<^verbatim>\<open>%w\<close>: the text before the wrapped error, the wrapped error, the text
  after it.
\<close>

datatype error =
    ErrMigrationNonUniqueName
  | ErrMigrationCommitNotCalled
  | ErrMigrationETLFilesDeleted
  | ErrStore
  | ErrDecode
  | ErrUnit string
  | Errorf string error string

text \<open>\<^verbatim>\<open>errors.Is\<close>: the error itself or one that it wraps.\<close>

fun errors_Is :: "error \<Rightarrow> error \<Rightarrow> bool" where
  "errors_Is (Errorf pre e post) target = (Errorf pre e post = target \<or> errors_Is e target)"
| "errors_Is e target = (e = target)"

text \<open>
  What an observer of a run sees of the units: a unit's \<^verbatim>\<open>Up\<close> is called with
  the progress read for it, the commit handler is called for a unit with a key and the flag
  \<^verbatim>\<open>isDone\<close> and returns, a unit's \<^verbatim>\<open>Up\<close> returns.
\<close>

datatype event =
    UpCalled string "bytes option"
  | HandlerCalled string "bytes option" bool "error option"
  | UpReturned string "error option"

text \<open>
  The store: what is committed (\<open>disk\<close>), the view of the open read-write transaction
  (\<open>tx\<close>), and two fields that are not data of the program: \<open>faults\<close> decides, operation
  by operation, which operations of the store fail (the empty list: none ever does), and
  \<open>log\<close> collects the events of the run.
\<close>

record store =
  disk :: db
  tx :: db
  faults :: "bool list"
  log :: "event list"

definition fails :: "store \<Rightarrow> bool \<times> store" where
  "fails s = (case faults s of [] \<Rightarrow> (False, s) | f # fs \<Rightarrow> (f, s\<lparr>faults := fs\<rparr>))"

definition db_Begin :: "store \<Rightarrow> error option \<times> store" where
  "db_Begin s = (case fails s of
       (True, s') \<Rightarrow> (Some ErrStore, s')
     | (False, s') \<Rightarrow> (None, s'\<lparr>tx := disk s'\<rparr>))"

definition tx_Rollback :: "store \<Rightarrow> store" where
  "tx_Rollback s = s\<lparr>tx := disk s\<rparr>"

definition tx_GetOne :: "bucket \<Rightarrow> bytes \<Rightarrow> store \<Rightarrow> (error + bytes option) \<times> store" where
  "tx_GetOne b k s = (case fails s of
       (True, s') \<Rightarrow> (Inl ErrStore, s')
     | (False, s') \<Rightarrow> (Inr (tx s' b k), s'))"

definition tx_Put :: "bucket \<Rightarrow> bytes \<Rightarrow> bytes \<Rightarrow> store \<Rightarrow> error option \<times> store" where
  "tx_Put b k v s = (case fails s of
       (True, s') \<Rightarrow> (Some ErrStore, s')
     | (False, s') \<Rightarrow> (None, s'\<lparr>tx := (tx s')(b := (tx s' b)(k \<mapsto> v))\<rparr>))"

definition tx_Delete :: "bucket \<Rightarrow> bytes \<Rightarrow> store \<Rightarrow> error option \<times> store" where
  "tx_Delete b k s = (case fails s of
       (True, s') \<Rightarrow> (Some ErrStore, s')
     | (False, s') \<Rightarrow> (None, s'\<lparr>tx := (tx s')(b := (tx s' b)(k := None))\<rparr>))"

definition tx_CommitAndBegin :: "store \<Rightarrow> error option \<times> store" where
  "tx_CommitAndBegin s = (case fails s of
       (True, s') \<Rightarrow> (Some ErrStore, s')
     | (False, s') \<Rightarrow> (None, s'\<lparr>disk := tx s'\<rparr>))"

definition tx_Commit :: "store \<Rightarrow> error option \<times> store" where
  "tx_Commit s = (case fails s of
       (True, s') \<Rightarrow> (Some ErrStore, s')
     | (False, s') \<Rightarrow> (None, s'\<lparr>disk := tx s'\<rparr>))"

subsection \<open>Units and the migrator\<close>

text \<open>
  A unit body is a Go function of the transaction, a scratch directory, the progress bytes
  and the commit handler. What it does with them is a tree: it returns, or it calls the
  handler and goes on with what the handler returned, or it reads the transaction, or it
  writes data through the transaction.
\<close>

datatype up =
    Return "error option"
  | OnLoadCommit "bytes option" bool "error option \<Rightarrow> up"
  | View "db \<Rightarrow> up"
  | Update "db \<Rightarrow> db" up

record Migration =
  Name :: string
  Up :: "string \<Rightarrow> bytes option \<Rightarrow> up"

record Migrator =
  Migrations :: "Migration list"

subsection \<open>Listing queries\<close>

text \<open>
  The visitor of the walk in \<^verbatim>\<open>AppliedMigrations\<close>, applied to every entry of
  the bucket: a key with the prefix is passed over, any other key is entered with the
  stored value or with the empty slice.
\<close>

definition applied_walk :: "table \<Rightarrow> bool \<Rightarrow> (string \<rightharpoonup> bytes)" where
  "applied_walk t withPayload = (\<lambda>k. case t k of
       None \<Rightarrow> None
     | Some v \<Rightarrow> if prefix ''_progress_'' k then None
                else if withPayload then Some v else Some [])"

definition AppliedMigrations ::
  "bool \<Rightarrow> store \<Rightarrow> ((string \<rightharpoonup> bytes) \<times> error option) \<times> store" where
  "AppliedMigrations withPayload s = (case fails s of
       (True, s') \<Rightarrow> ((Map.empty, Some ErrStore), s')
     | (False, s') \<Rightarrow> ((applied_walk (disk s' dbutils_Migrations) withPayload, None), s'))"

text \<open>The two loops of \<^verbatim>\<open>PendingMigrations\<close>: the count, then the appends.\<close>

fun pending_counter :: "(string \<rightharpoonup> bytes) \<Rightarrow> Migration list \<Rightarrow> nat \<Rightarrow> nat" where
  "pending_counter applied [] counter = counter"
| "pending_counter applied (v # vs) counter =
     (case applied (Name v) of
        Some _ \<Rightarrow> pending_counter applied vs counter
      | None \<Rightarrow> pending_counter applied vs (counter + 1))"

fun pending_append ::
  "(string \<rightharpoonup> bytes) \<Rightarrow> Migration list \<Rightarrow> Migration list \<Rightarrow> Migration list" where
  "pending_append applied [] pending = pending"
| "pending_append applied (v # vs) pending =
     (case applied (Name v) of
        Some _ \<Rightarrow> pending_append applied vs pending
      | None \<Rightarrow> pending_append applied vs (pending @ [v]))"

text \<open>
  \<^verbatim>\<open>make([]Migration, 0, counter)\<close> is the empty slice; its capacity \<open>counter\<close> is
  not seen in the result.
\<close>

definition make_slice :: "nat \<Rightarrow> Migration list" where
  "make_slice counter = []"

definition PendingMigrations :: "Migrator \<Rightarrow> store \<Rightarrow> (error + Migration list) \<times> store" where
  "PendingMigrations m s = (case AppliedMigrations False s of
       ((applied, Some err), s') \<Rightarrow> (Inl err, s')
     | ((applied, None), s') \<Rightarrow>
         (let counter = pending_counter applied (Migrations m) 0;
              pending = make_slice counter
          in (Inr (pending_append applied (Migrations m) pending), s')))"

definition HasPendingMigrations :: "Migrator \<Rightarrow> store \<Rightarrow> (error + bool) \<times> store" where
  "HasPendingMigrations m s = (case PendingMigrations m s of
       (Inl err, s') \<Rightarrow> (Inl err, s')
     | (Inr pending, s') \<Rightarrow> (Inr (length pending > 0), s'))"

subsection \<open>Payload codec\<close>

text \<open>
  Of package \<^verbatim>\<open>dbutils\<close>, \<^verbatim>\<open>stages\<close> and \<^verbatim>\<open>path\<close> the
  sources hold the uses only; the constants and the one function the engine takes from
  them are parameters of the model.
\<close>

record VersionType =
  Major :: "32 word"
  Minor :: "32 word"
  Patch :: "32 word"

record env =
  stages_AllStages :: "string list"
  dbutils_DBSchemaVersionLMDB :: VersionType
  dbutils_DBSchemaVersionMDBX :: VersionType
  dbutils_DBSchemaVersionKey :: bytes
  path_Join :: "string list \<Rightarrow> string"

text \<open>Big-endian bytes of a number, most significant first, and the number of such bytes.\<close>

fun be_bytes :: "nat \<Rightarrow> nat \<Rightarrow> bytes" where
  "be_bytes 0 n = []"
| "be_bytes (Suc k) n = be_bytes k (n div 256) @ [char_of (n mod 256)]"

definition be_nat :: "bytes \<Rightarrow> nat" where
  "be_nat bs = foldl (\<lambda>a c. a * 256 + of_char c) 0 bs"

definition PutUint32 :: "32 word \<Rightarrow> bytes" where
  "PutUint32 v = be_bytes 4 (unat v)"

text \<open>
  The encoder and the decoder are those of the CBOR handle of the codec library, which is
  not part of the sources. The model is the definite-length encoding that the library
  writes for a \<^verbatim>\<open>map[string][]byte\<close>: the head of an item is its base
  descriptor plus a length, short lengths in the descriptor byte, longer ones in the 1, 2,
  4 or 8 bytes that follow; a map is its head with the number of entries, then every key as
  a text string and every value as a byte string. The decoder of the model reads what this
  encoder writes; the decoder of the library accepts more (lengths left open, other kinds
  of keys and values), and on such input the model answers with a decode error where the
  library may not. The entries of the Go map are kept in the order of their first
  assignment; Go leaves the order of iteration open.
\<close>

definition cborBaseBytes :: nat where "cborBaseBytes = 0x40"
definition cborBaseString :: nat where "cborBaseString = 0x60"
definition cborBaseMap :: nat where "cborBaseMap = 0xa0"

definition encUint :: "nat \<Rightarrow> nat \<Rightarrow> bytes" where
  "encUint bd v =
     (if v \<le> 0x17 then [char_of (bd + v)]
      else if v \<le> 0xFF then [char_of (bd + 0x18), char_of v]
      else if v \<le> 0xFFFF then char_of (bd + 0x19) # be_bytes 2 v
      else if v \<le> 0xFFFFFFFF then char_of (bd + 0x1a) # be_bytes 4 v
      else char_of (bd + 0x1b) # be_bytes 8 v)"

fun encEntries :: "(string \<times> bytes) list \<Rightarrow> bytes" where
  "encEntries [] = []"
| "encEntries ((k, v) # es) =
     encUint cborBaseString (length k) @ k @ encUint cborBaseBytes (length v) @ v
       @ encEntries es"

definition cbor_Encode :: "(string \<times> bytes) list \<Rightarrow> bytes" where
  "cbor_Encode s = encUint cborBaseMap (length s) @ encEntries s"

text \<open>The head of an item: base descriptor, length, and the bytes after the head.\<close>

definition decFollowing :: "nat \<Rightarrow> nat \<Rightarrow> bytes \<Rightarrow> (nat \<times> nat \<times> bytes) option" where
  "decFollowing bd n rest =
     (if length rest < n then None else Some (bd, be_nat (take n rest), drop n rest))"

definition decUint :: "bytes \<Rightarrow> (nat \<times> nat \<times> bytes) option" where
  "decUint bs = (case bs of
       [] \<Rightarrow> None
     | c # rest \<Rightarrow>
         (let b = of_char c; info = b mod 32; bd = b - info
          in if info \<le> 0x17 then Some (bd, info, rest)
             else if info = 0x18 then decFollowing bd 1 rest
             else if info = 0x19 then decFollowing bd 2 rest
             else if info = 0x1a then decFollowing bd 4 rest
             else if info = 0x1b then decFollowing bd 8 rest
             else None))"

definition decItem :: "nat \<Rightarrow> bytes \<Rightarrow> (bytes \<times> bytes) option" where
  "decItem base bs = (case decUint bs of
       None \<Rightarrow> None
     | Some (bd, n, rest) \<Rightarrow>
         if bd \<noteq> base \<or> length rest < n then None else Some (take n rest, drop n rest))"

fun decEntries :: "nat \<Rightarrow> bytes \<Rightarrow> (string \<rightharpoonup> bytes) \<Rightarrow> (string \<rightharpoonup> bytes) option" where
  "decEntries 0 bs s = Some s"
| "decEntries (Suc n) bs s = (case decItem cborBaseString bs of
       None \<Rightarrow> None
     | Some (k, bs1) \<Rightarrow> (case decItem cborBaseBytes bs1 of
           None \<Rightarrow> None
         | Some (v, bs2) \<Rightarrow> decEntries n bs2 (s(k \<mapsto> v))))"

definition cbor_Decode :: "bytes \<Rightarrow> (string \<rightharpoonup> bytes) option" where
  "cbor_Decode data = (case decUint data of
       None \<Rightarrow> None
     | Some (bd, n, rest) \<Rightarrow> if bd \<noteq> cborBaseMap then None else decEntries n rest Map.empty)"

text \<open>
  A handle of interface \<^verbatim>\<open>ethdb.Getter\<close> is its \<^verbatim>\<open>GetOne\<close>: that of
  the open transaction is \<^const>\<open>tx_GetOne\<close>, that of the database itself reads what is
  committed.
\<close>

type_synonym getter = "bucket \<Rightarrow> bytes \<Rightarrow> store \<Rightarrow> (error + bytes option) \<times> store"

definition db_GetOne :: getter where
  "db_GetOne b k s = (case fails s of
       (True, s') \<Rightarrow> (Inl ErrStore, s')
     | (False, s') \<Rightarrow> (Inr (disk s' b k), s'))"

definition len :: "bytes option \<Rightarrow> nat" where
  "len v = (case v of None \<Rightarrow> 0 | Some b \<Rightarrow> length b)"

definition assign :: "string \<Rightarrow> bytes option \<Rightarrow> (string \<times> bytes) list \<Rightarrow> (string \<times> bytes) list" where
  "assign k v s = (if len v > 0 then AList.update k (the v) s else s)"

fun marshal_stages ::
  "getter \<Rightarrow> string list \<Rightarrow> (string \<times> bytes) list \<Rightarrow> store
    \<Rightarrow> (error + (string \<times> bytes) list) \<times> store" where
  "marshal_stages get [] s st = (Inr s, st)"
| "marshal_stages get (stage # rest) s st =
     (case get dbutils_SyncStageProgress stage st of
        (Inl err, st1) \<Rightarrow> (Inl err, st1)
      | (Inr v, st1) \<Rightarrow>
          (case get dbutils_SyncStageUnwind stage st1 of
             (Inl err, st2) \<Rightarrow> (Inl err, st2)
           | (Inr v', st2) \<Rightarrow>
               marshal_stages get rest
                 (assign (''unwind_'' @ stage) v' (assign stage v s)) st2))"

definition MarshalMigrationPayload :: "env \<Rightarrow> getter \<Rightarrow> store \<Rightarrow> (error + bytes) \<times> store" where
  "MarshalMigrationPayload E get st = (case marshal_stages get (stages_AllStages E) [] st of
       (Inl err, st') \<Rightarrow> (Inl err, st')
     | (Inr s, st') \<Rightarrow> (Inr (cbor_Encode s), st'))"

definition UnmarshalMigrationPayload :: "bytes \<Rightarrow> error + (string \<rightharpoonup> bytes)" where
  "UnmarshalMigrationPayload data = (case cbor_Decode data of
       None \<Rightarrow> Inl ErrDecode
     | Some s \<Rightarrow> Inr s)"

subsection \<open>Apply\<close>

text \<open>
  The commit handler that \<^verbatim>\<open>Apply\<close> passes to the unit named \<open>name\<close>. It shares
  the variable \<^verbatim>\<open>commitFuncCalled\<close> with the loop, here the first component of the
  state.
\<close>

definition commit_handler ::
  "env \<Rightarrow> string \<Rightarrow> bytes option \<Rightarrow> bool \<Rightarrow> bool \<times> store \<Rightarrow> error option \<times> bool \<times> store" where
  "commit_handler E name key isDone cs = (case cs of (commitFuncCalled, s) \<Rightarrow>
     if \<not> isDone then
       (case (case key of
                None \<Rightarrow> (None, s)
              | Some k \<Rightarrow> tx_Put dbutils_Migrations (''_progress_'' @ name) k s) of
          (Some err, s1) \<Rightarrow> (Some err, commitFuncCalled, s1)
        | (None, s1) \<Rightarrow>
            (case tx_CommitAndBegin s1 of
               (Some err, s2) \<Rightarrow> (Some err, commitFuncCalled, s2)
             | (None, s2) \<Rightarrow> (None, commitFuncCalled, s2)))
     else
       (case MarshalMigrationPayload E tx_GetOne s of
          (Inl err, s1) \<Rightarrow> (Some err, True, s1)
        | (Inr stagesProgress, s1) \<Rightarrow>
            (case tx_Put dbutils_Migrations name stagesProgress s1 of
               (Some err, s2) \<Rightarrow> (Some err, True, s2)
             | (None, s2) \<Rightarrow>
                 (case tx_Delete dbutils_Migrations (''_progress_'' @ name) s2 of
                    (Some err, s3) \<Rightarrow> (Some err, True, s3)
                  | (None, s3) \<Rightarrow>
                      (case tx_CommitAndBegin s3 of
                         (Some err, s4) \<Rightarrow> (Some err, True, s4)
                       | (None, s4) \<Rightarrow> (None, True, s4))))))"

text \<open>
  Running a unit body against the transaction and the handler. The body holds the
  transaction of the engine: what it writes, to any bucket, is in the view at once and is
  committed by the next call of the handler.
\<close>

primrec run_up :: "env \<Rightarrow> string \<Rightarrow> up \<Rightarrow> bool \<times> store \<Rightarrow> error option \<times> bool \<times> store" where
  "run_up E name (Return r) cs = (r, cs)"
| "run_up E name (OnLoadCommit key isDone k) cs =
     (case commit_handler E name key isDone cs of
        (r, c', s') \<Rightarrow>
          run_up E name (k r) (c', s'\<lparr>log := log s' @ [HandlerCalled name key isDone r]\<rparr>))"
| "run_up E name (View k) cs = run_up E name (k (tx (snd cs))) cs"
| "run_up E name (Update f k) cs =
     run_up E name k (fst cs, (snd cs)\<lparr>tx := f (tx (snd cs))\<rparr>)"

text \<open>
  A body that leaves the bucket \<^verbatim>\<open>dbutils.Migrations\<close> to the handler: none of its
  writes changes that bucket, whatever it reads and whatever the handler returns. A list
  of units with such bodies.
\<close>

primrec hands_off :: "up \<Rightarrow> bool" where
  "hands_off (Return r) = True"
| "hands_off (OnLoadCommit key isDone k) = (\<forall>r. hands_off (k r))"
| "hands_off (View k) = (\<forall>d. hands_off (k d))"
| "hands_off (Update f k) =
     ((\<forall>d. f d dbutils_Migrations = d dbutils_Migrations) \<and> hands_off k)"

definition hands_off_units :: "Migration list \<Rightarrow> bool" where
  "hands_off_units ms = (\<forall>v \<in> set ms. \<forall>tmpdir progress. hands_off (Up v tmpdir progress))"

text \<open>The check of the names, with the map \<^verbatim>\<open>uniqueNameCheck\<close> of the names seen.\<close>

fun unique_names :: "(string \<rightharpoonup> bool) \<Rightarrow> Migration list \<Rightarrow> error option" where
  "unique_names uniqueNameCheck [] = None"
| "unique_names uniqueNameCheck (v # vs) =
     (case uniqueNameCheck (Name v) of
        Some _ \<Rightarrow> Some (Errorf [] ErrMigrationNonUniqueName ('', duplicate: '' @ Name v))
      | None \<Rightarrow> unique_names (uniqueNameCheck(Name v \<mapsto> True)) vs)"

text \<open>
  One round of the loop for a unit that is not applied: the progress is read, the body runs
  with the handler, and the flag is checked when the body has returned nil.
\<close>

definition apply_unit :: "env \<Rightarrow> string \<Rightarrow> Migration \<Rightarrow> store \<Rightarrow> error option \<times> store" where
  "apply_unit E datadir v s =
     (case tx_GetOne dbutils_Migrations (''_progress_'' @ Name v) s of
        (Inl err, s1) \<Rightarrow> (Some err, s1)
      | (Inr progress, s1) \<Rightarrow>
          (case run_up E (Name v)
                  (Up v (path_Join E [datadir, ''migrations'', Name v]) progress)
                  (False, s1\<lparr>log := log s1 @ [UpCalled (Name v) progress]\<rparr>) of
             (r, commitFuncCalled, s2) \<Rightarrow>
               (let s3 = s2\<lparr>log := log s2 @ [UpReturned (Name v) r]\<rparr>
                in case r of
                     Some err \<Rightarrow> (Some err, s3)
                   | None \<Rightarrow>
                       if \<not> commitFuncCalled
                       then (Some (Errorf [] ErrMigrationCommitNotCalled ('': '' @ Name v)), s3)
                       else (None, s3))))"

text \<open>The loop over the units; a unit whose name is in \<open>applied\<close> is passed over.\<close>

fun apply_loop ::
  "env \<Rightarrow> string \<Rightarrow> (string \<rightharpoonup> bytes) \<Rightarrow> Migration list \<Rightarrow> store \<Rightarrow> error option \<times> store" where
  "apply_loop E datadir applied [] s = (None, s)"
| "apply_loop E datadir applied (v # vs) s =
     (case applied (Name v) of
        Some _ \<Rightarrow> apply_loop E datadir applied vs s
      | None \<Rightarrow>
          (case apply_unit E datadir v s of
             (Some err, s') \<Rightarrow> (Some err, s')
           | (None, s') \<Rightarrow> apply_loop E datadir applied vs s'))"

definition schema_version :: "env \<Rightarrow> bool \<Rightarrow> bytes" where
  "schema_version E mdbx =
     (if mdbx
      then PutUint32 (Major (dbutils_DBSchemaVersionMDBX E))
         @ PutUint32 (Minor (dbutils_DBSchemaVersionMDBX E))
         @ PutUint32 (Patch (dbutils_DBSchemaVersionMDBX E))
      else PutUint32 (Major (dbutils_DBSchemaVersionLMDB E))
         @ PutUint32 (Minor (dbutils_DBSchemaVersionLMDB E))
         @ PutUint32 (Patch (dbutils_DBSchemaVersionLMDB E)))"

text \<open>
  What follows \<^verbatim>\<open>db.Begin\<close>: the loop, the write of the schema version, the commit.
  The deferred rollback runs on every way out of it.
\<close>

definition apply_tx ::
  "env \<Rightarrow> Migrator \<Rightarrow> string \<Rightarrow> bool \<Rightarrow> (string \<rightharpoonup> bytes) \<Rightarrow> store \<Rightarrow> error option \<times> store" where
  "apply_tx E m datadir mdbx applied s =
     (case apply_loop E datadir applied (Migrations m) s of
        (Some err, s1) \<Rightarrow> (Some err, s1)
      | (None, s1) \<Rightarrow>
          (case tx_Put dbutils_DatabaseInfoBucket (dbutils_DBSchemaVersionKey E)
                  (schema_version E mdbx) s1 of
             (Some err, s2) \<Rightarrow> (Some (Errorf ''writing DB schema version: '' err []), s2)
           | (None, s2) \<Rightarrow>
               (case tx_Commit s2 of
                  (Some err, s3) \<Rightarrow> (Some (Errorf ''committing DB version update: '' err []), s3)
                | (None, s3) \<Rightarrow> (None, s3))))"

definition Apply :: "env \<Rightarrow> Migrator \<Rightarrow> store \<Rightarrow> string \<Rightarrow> bool \<Rightarrow> error option \<times> store" where
  "Apply E m s datadir mdbx =
     (if length (Migrations m) = 0 then (None, s)
      else case AppliedMigrations False s of
          ((applied, Some err1), s1) \<Rightarrow> (Some err1, s1)
        | ((applied, None), s1) \<Rightarrow>
            (case unique_names Map.empty (Migrations m) of
               Some err \<Rightarrow> (Some err, s1)
             | None \<Rightarrow>
                 (case db_Begin s1 of
                    (Some err1, s2) \<Rightarrow> (Some err1, s2)
                  | (None, s2) \<Rightarrow>
                      (case apply_tx E m datadir mdbx applied s2 of
                         (r, s3) \<Rightarrow> (r, tx_Rollback s3)))))"

subsection \<open>Reading the log, the tests' units\<close>

text \<open>The unit an event belongs to, and the units whose bodies were called, in order.\<close>

fun event_name :: "event \<Rightarrow> string" where
  "event_name (UpCalled n progress) = n"
| "event_name (HandlerCalled n key isDone r) = n"
| "event_name (UpReturned n r) = n"

fun invoked :: "event list \<Rightarrow> string list" where
  "invoked [] = []"
| "invoked (UpCalled n progress # es) = n # invoked es"
| "invoked (e # es) = invoked es"

text \<open>The set of applied names with their payloads that a scan of a working store returns.\<close>

abbreviation applied_set :: "bool \<Rightarrow> store \<Rightarrow> (string \<rightharpoonup> bytes)" where
  "applied_set withPayload s \<equiv> fst (fst (AppliedMigrations withPayload (s\<lparr>faults := []\<rparr>)))"

abbreviation put :: "bytes \<Rightarrow> bytes \<Rightarrow> db \<Rightarrow> db" where
  "put k v d \<equiv> d(dbutils_Migrations := (d dbutils_Migrations)(k \<mapsto> v))"

abbreviation del :: "bytes \<Rightarrow> db \<Rightarrow> db" where
  "del k d \<equiv> d(dbutils_Migrations := (d dbutils_Migrations)(k := None))"

text \<open>
  The fixtures of \<^verbatim>\<open>migrations_test.go\<close>: an empty test database, and units whose
  bodies are \<^verbatim>\<open>return OnLoadCommit(db, nil, true)\<close>, \<^verbatim>\<open>return nil\<close> and a
  body that fails the test when it runs. The constants of the environment are examples;
  \<open>join_elems\<close> joins the elements that are not empty with a slash, as
  \<^verbatim>\<open>path.Join\<close> does for elements that need no cleaning.
\<close>

fun join_elems :: "string list \<Rightarrow> string" where
  "join_elems [] = []"
| "join_elems (e # es) =
     (if e = [] then join_elems es
      else if join_elems es = [] then e
      else e @ CHR ''/'' # join_elems es)"

definition test_env :: env where
  "test_env = \<lparr>stages_AllStages = [''Headers'', ''Bodies'', ''Execution''],
     dbutils_DBSchemaVersionLMDB = \<lparr>Major = 1, Minor = 1, Patch = 0\<rparr>,
     dbutils_DBSchemaVersionMDBX = \<lparr>Major = 2, Minor = 0, Patch = 0\<rparr>,
     dbutils_DBSchemaVersionKey = ''dbVersion'',
     path_Join = join_elems\<rparr>"

definition NewTestDB :: store where
  "NewTestDB = \<lparr>disk = (\<lambda>b. Map.empty), tx = (\<lambda>b. Map.empty), faults = [], log = []\<rparr>"

definition db_Put :: "bucket \<Rightarrow> bytes \<Rightarrow> bytes \<Rightarrow> store \<Rightarrow> store" where
  "db_Put b k v s = s\<lparr>disk := (disk s)(b := (disk s b)(k \<mapsto> v))\<rparr>"

definition completes :: "string \<Rightarrow> Migration" where
  "completes n = \<lparr>Name = n, Up = (\<lambda>tmpdir progress. OnLoadCommit None True Return)\<rparr>"

definition returns_nil :: "string \<Rightarrow> Migration" where
  "returns_nil n = \<lparr>Name = n, Up = (\<lambda>tmpdir progress. Return None)\<rparr>"

definition must_not_run :: "string \<Rightarrow> Migration" where
  "must_not_run n = \<lparr>Name = n, Up = (\<lambda>tmpdir progress. Return (Some (ErrUnit ''executed'')))\<rparr>"

text \<open>
  More bodies: one signals completion and then commits a checkpoint before it returns
  nil, one signals completion and then returns an error of its own. Three write the
  bucket of the engine through the transaction they are given: one puts a record under its
  own name, commits it by a checkpoint call and returns nil; one deletes the record of
  another unit and signals completion; one signals completion, deletes its own record,
  commits that by a checkpoint call and returns an error.
\<close>

definition completes_then_checkpoints :: "string \<Rightarrow> Migration" where
  "completes_then_checkpoints n = \<lparr>Name = n, Up = (\<lambda>tmpdir progress.
     OnLoadCommit None True (\<lambda>r. OnLoadCommit (Some ''k'') False (\<lambda>r'. Return None)))\<rparr>"

definition completes_then_fails :: "string \<Rightarrow> Migration" where
  "completes_then_fails n = \<lparr>Name = n, Up = (\<lambda>tmpdir progress.
     OnLoadCommit None True (\<lambda>r. Return (Some (ErrUnit ''late''))))\<rparr>"

definition writes_own_record :: "string \<Rightarrow> Migration" where
  "writes_own_record n = \<lparr>Name = n, Up = (\<lambda>tmpdir progress.
     Update (put n [CHR 0x01]) (OnLoadCommit None False (\<lambda>r. Return None)))\<rparr>"

definition deletes_then_completes :: "string \<Rightarrow> string \<Rightarrow> Migration" where
  "deletes_then_completes n other = \<lparr>Name = n, Up = (\<lambda>tmpdir progress.
     Update (del other) (OnLoadCommit None True Return))\<rparr>"

definition completes_deletes_fails :: "string \<Rightarrow> Migration" where
  "completes_deletes_fails n = \<lparr>Name = n, Up = (\<lambda>tmpdir progress.
     OnLoadCommit None True (\<lambda>r. Update (del n)
       (OnLoadCommit None False (\<lambda>r'. Return (Some (ErrUnit ''late''))))))\<rparr>"

text \<open>
  The unit of \<^verbatim>\<open>remove_clique.go\<close>. \<^verbatim>\<open>BucketExists\<close> and
  \<^verbatim>\<open>DropBuckets\<close> belong to the interface \<^verbatim>\<open>ethdb.BucketsMigrator\<close>, which
  the sources do not hold; they are parameters here, each returning an error or its
  result on the view of the transaction.
\<close>

definition removeCliqueBucket ::
  "(bucket \<Rightarrow> db \<Rightarrow> error + bool) \<Rightarrow> (bucket \<Rightarrow> db \<Rightarrow> error + db) \<Rightarrow> Migration" where
  "removeCliqueBucket BucketExists DropBuckets =
     \<lparr>Name = ''remove_clique_bucket'',
      Up = (\<lambda>tmpdir progress. View (\<lambda>d.
        case BucketExists dbutils_CliqueBucket d of
          Inl err \<Rightarrow> Return (Some err)
        | Inr exists \<Rightarrow>
            if \<not> exists then OnLoadCommit None True Return
            else (case DropBuckets dbutils_CliqueBucket d of
                    Inl err \<Rightarrow> Return (Some err)
                  | Inr d' \<Rightarrow> Update (\<lambda>_. d') (OnLoadCommit None True Return))))\<rparr>"

section \<open>Properties\<close>

subsection \<open>The codec: decoding what was encoded\<close>

lemma be_nat_snoc: "be_nat (bs @ [c]) = be_nat bs * 256 + of_char c"
  by (simp add: be_nat_def)

lemma length_be_bytes: "length (be_bytes k n) = k"
  by (induction k arbitrary: n) auto

lemma be_nat_be_bytes: "be_nat (be_bytes k n) = n mod 256 ^ k"
proof (induction k arbitrary: n)
  case 0 show ?case by (simp add: be_nat_def)
next
  case (Suc k)
  have "be_nat (be_bytes (Suc k) n) = (n div 256) mod 256 ^ k * 256 + n mod 256"
    by (simp add: be_nat_snoc Suc)
  also have "\<dots> = n mod 256 ^ Suc k"
    by (simp add: mod_mult2_eq)
  finally show ?case .
qed


lemma decFollowing_be:
  "v < 256 ^ n \<Longrightarrow> decFollowing bd n (be_bytes n v @ rest) = Some (bd, v, rest)"
  by (simp add: decFollowing_def length_be_bytes be_nat_be_bytes)

lemma decUint_head:
  assumes "bd mod 32 = 0" "bd < 225" "i < 32"
  shows "decUint (char_of (bd + i) # bs) =
     (if i \<le> 0x17 then Some (bd, i, bs)
      else if i = 0x18 then decFollowing bd 1 bs
      else if i = 0x19 then decFollowing bd 2 bs
      else if i = 0x1a then decFollowing bd 4 bs
      else if i = 0x1b then decFollowing bd 8 bs
      else None)"
proof -
  have hd: "of_char (char_of (bd + i)) = bd + i"
    using assms by simp
  have md: "(bd + i) mod 32 = i"
    using assms by (simp add: mod_add_left_eq[symmetric])
  show ?thesis
    unfolding decUint_def list.case Let_def hd md by simp
qed

lemma be_bytes_1: "be_bytes 1 v = [char_of v]"
  by simp

lemma decUint_encUint:
  assumes "bd \<in> {cborBaseBytes, cborBaseString, cborBaseMap}" "v < 2 ^ 64"
  shows "decUint (encUint bd v @ rest) = Some (bd, v, rest)"
proof -
  have bd: "bd mod 32 = 0" "bd < 225" using assms(1)
    by (auto simp: cborBaseBytes_def cborBaseString_def cborBaseMap_def)
  consider (a) "v \<le> 0x17" | (b) "0x17 < v" "v \<le> 0xFF" | (c) "0xFF < v" "v \<le> 0xFFFF"
    | (d) "0xFFFF < v" "v \<le> 0xFFFFFFFF" | (e) "0xFFFFFFFF < v"
    by linarith
  then show ?thesis
  proof cases
    case a
    then show ?thesis by (simp add: encUint_def decUint_head[OF bd])
  next
    case b
    have "encUint bd v = char_of (bd + 0x18) # be_bytes 1 v"
      using b by (simp add: encUint_def be_bytes_1)
    then show ?thesis
      using b decFollowing_be[of v 1 bd rest] by (simp add: decUint_head[OF bd])
  next
    case c
    have "encUint bd v = char_of (bd + 0x19) # be_bytes 2 v"
      using c by (simp add: encUint_def)
    then show ?thesis
      using c decFollowing_be[of v 2 bd rest] by (simp add: decUint_head[OF bd])
  next
    case d
    have "encUint bd v = char_of (bd + 0x1a) # be_bytes 4 v"
      using d by (simp add: encUint_def)
    then show ?thesis
      using d decFollowing_be[of v 4 bd rest] by (simp add: decUint_head[OF bd])
  next
    case e
    have "encUint bd v = char_of (bd + 0x1b) # be_bytes 8 v"
      using e by (simp add: encUint_def)
    then show ?thesis
      using assms(2) decFollowing_be[of v 8 bd rest] by (simp add: decUint_head[OF bd])
  qed
qed


lemma decItem_encUint:
  assumes "base \<in> {cborBaseBytes, cborBaseString, cborBaseMap}" "length k < 2 ^ 64"
  shows "decItem base (encUint base (length k) @ k @ rest) = Some (k, rest)"
  by (simp add: decItem_def decUint_encUint[OF assms])

lemma decEntries_encEntries:
  assumes "\<forall>(k, v) \<in> set es. length k < 2 ^ 64 \<and> length v < 2 ^ 64"
  shows "decEntries (length es) (encEntries es @ rest) s
           = Some (fold (\<lambda>(k, v) m. m(k \<mapsto> v)) es s)"
  using assms
proof (induction es arbitrary: s)
  case Nil
  show ?case by simp
next
  case (Cons e es)
  obtain k v where e: "e = (k, v)" by (cases e)
  from Cons.prems e have len: "length k < 2 ^ 64" "length v < 2 ^ 64"
    and rest: "\<forall>(k, v) \<in> set es. length k < 2 ^ 64 \<and> length v < 2 ^ 64"
    by auto
  have k: "decItem cborBaseString
             (encUint cborBaseString (length k) @ k @
                (encUint cborBaseBytes (length v) @ v @ encEntries es @ rest))
           = Some (k, encUint cborBaseBytes (length v) @ v @ encEntries es @ rest)"
    by (rule decItem_encUint) (use len in simp_all)
  have v: "decItem cborBaseBytes (encUint cborBaseBytes (length v) @ v @ (encEntries es @ rest))
           = Some (v, encEntries es @ rest)"
    by (rule decItem_encUint) (use len in simp_all)
  show ?case
    using k v Cons.IH[OF rest] by (simp add: e)
qed

lemma cbor_roundtrip:
  assumes "length es < 2 ^ 64" "\<forall>(k, v) \<in> set es. length k < 2 ^ 64 \<and> length v < 2 ^ 64"
  shows "cbor_Decode (cbor_Encode es) = Some (fold (\<lambda>(k, v) m. m(k \<mapsto> v)) es Map.empty)"
proof -
  have "decUint (encUint cborBaseMap (length es) @ encEntries es)
          = Some (cborBaseMap, length es, encEntries es)"
    by (rule decUint_encUint) (use assms(1) in simp_all)
  then show ?thesis
    using decEntries_encEntries[OF assms(2), of "[]" Map.empty]
    by (simp add: cbor_Decode_def cbor_Encode_def)
qed

subsection \<open>The loop over the stages\<close>

lemma fails_healthy: "faults s = [] \<Longrightarrow> fails s = (False, s)"
  by (simp add: fails_def)

lemma tx_GetOne_healthy: "faults s = [] \<Longrightarrow> tx_GetOne b k s = (Inr (tx s b k), s)"
  by (simp add: tx_GetOne_def fails_healthy)

lemma db_GetOne_healthy: "faults s = [] \<Longrightarrow> db_GetOne b k s = (Inr (disk s b k), s)"
  by (simp add: db_GetOne_def fails_healthy)

lemma marshal_stages_healthy:
  assumes "\<And>b k. get b k st = (Inr (h b k), st)"
  shows "marshal_stages get sts s st =
     (Inr (fold (\<lambda>stage s. assign (''unwind_'' @ stage) (h dbutils_SyncStageUnwind stage)
                              (assign stage (h dbutils_SyncStageProgress stage) s)) sts s), st)"
  by (induction sts arbitrary: s) (simp_all add: assms)

lemma fold_one_stage:
  assumes "\<forall>x \<in> set sts. len (h dbutils_SyncStageUnwind x) = 0"
    and "\<forall>x \<in> set sts. x \<noteq> stage \<longrightarrow> len (h dbutils_SyncStageProgress x) = 0"
    and "h dbutils_SyncStageProgress stage = Some v" "v \<noteq> []"
    and "s = [] \<or> s = [(stage, v)]"
  shows "fold (\<lambda>stage s. assign (''unwind_'' @ stage) (h dbutils_SyncStageUnwind stage)
                              (assign stage (h dbutils_SyncStageProgress stage) s)) sts s
         = (if stage \<in> set sts then [(stage, v)] else s)"
  using assms
proof (induction sts arbitrary: s)
  case Nil
  show ?case by simp
next
  case (Cons x sts)
  show ?case
  proof (cases "x = stage")
    case True
    have "assign (''unwind_'' @ x) (h dbutils_SyncStageUnwind x)
            (assign x (h dbutils_SyncStageProgress x) s) = [(stage, v)]"
      using Cons.prems True by (auto simp: assign_def len_def)
    moreover have "fold (\<lambda>stage s. assign (''unwind_'' @ stage) (h dbutils_SyncStageUnwind stage)
                              (assign stage (h dbutils_SyncStageProgress stage) s)) sts [(stage, v)]
         = (if stage \<in> set sts then [(stage, v)] else [(stage, v)])"
      by (rule Cons.IH) (use Cons.prems in simp_all)
    ultimately show ?thesis using True by simp
  next
    case False
    have "assign (''unwind_'' @ x) (h dbutils_SyncStageUnwind x)
            (assign x (h dbutils_SyncStageProgress x) s) = s"
      using Cons.prems False by (auto simp: assign_def)
    moreover have "fold (\<lambda>stage s. assign (''unwind_'' @ stage) (h dbutils_SyncStageUnwind stage)
                              (assign stage (h dbutils_SyncStageProgress stage) s)) sts s
         = (if stage \<in> set sts then [(stage, v)] else s)"
      by (rule Cons.IH) (use Cons.prems in simp_all)
    ultimately show ?thesis using False by simp
  qed
qed

subsection \<open>What an operation of the store can change\<close>

text \<open>
  Whether it fails or not, an operation changes at most the view of the transaction or
  what is committed, and in one way only; none writes the log.
\<close>

lemma fails_cases:
  assumes "fails s = (b, s')"
  shows "tx s' = tx s \<and> disk s' = disk s \<and> log s' = log s"
  using assms by (auto simp: fails_def split: list.splits)

lemma tx_Put_cases:
  assumes "tx_Put b k v s = (r, s')"
  shows "disk s' = disk s \<and> log s' = log s \<and>
         (r = None \<and> tx s' = (tx s)(b := (tx s b)(k \<mapsto> v)) \<or> r \<noteq> None \<and> tx s' = tx s)"
proof (cases "fails s")
  case (Pair f s1)
  with assms fails_cases[OF Pair] show ?thesis
    by (cases f) (auto simp: tx_Put_def)
qed

lemma tx_Delete_cases:
  assumes "tx_Delete b k s = (r, s')"
  shows "disk s' = disk s \<and> log s' = log s \<and>
         (r = None \<and> tx s' = (tx s)(b := (tx s b)(k := None)) \<or> r \<noteq> None \<and> tx s' = tx s)"
proof (cases "fails s")
  case (Pair f s1)
  with assms fails_cases[OF Pair] show ?thesis
    by (cases f) (auto simp: tx_Delete_def)
qed

lemma tx_CommitAndBegin_cases:
  assumes "tx_CommitAndBegin s = (r, s')"
  shows "tx s' = tx s \<and> log s' = log s \<and>
         (r = None \<and> disk s' = tx s \<or> r \<noteq> None \<and> disk s' = disk s)"
proof (cases "fails s")
  case (Pair f s1)
  with assms fails_cases[OF Pair] show ?thesis
    by (cases f) (auto simp: tx_CommitAndBegin_def)
qed

lemma tx_Commit_cases:
  assumes "tx_Commit s = (r, s')"
  shows "tx s' = tx s \<and> log s' = log s \<and>
         (r = None \<and> disk s' = tx s \<or> r \<noteq> None \<and> disk s' = disk s)"
proof (cases "fails s")
  case (Pair f s1)
  with assms fails_cases[OF Pair] show ?thesis
    by (cases f) (auto simp: tx_Commit_def)
qed

lemma tx_GetOne_cases:
  assumes "tx_GetOne b k s = (r, s')"
  shows "tx s' = tx s \<and> disk s' = disk s \<and> log s' = log s \<and> (r = Inr (tx s b k) \<or> r = Inl ErrStore)"
proof (cases "fails s")
  case (Pair f s1)
  with assms fails_cases[OF Pair] show ?thesis
    by (cases f) (auto simp: tx_GetOne_def)
qed

lemma marshal_stages_cases:
  assumes "marshal_stages tx_GetOne sts m s = (r, s')"
  shows "tx s' = tx s \<and> disk s' = disk s \<and> log s' = log s"
  using assms
proof (induction sts arbitrary: m s)
  case Nil
  then show ?case by simp
next
  case (Cons x sts)
  obtain r1 s1 where g1: "tx_GetOne dbutils_SyncStageProgress x s = (r1, s1)" by fastforce
  obtain r2 s2 where g2: "tx_GetOne dbutils_SyncStageUnwind x s1 = (r2, s2)" by fastforce
  note c1 = tx_GetOne_cases[OF g1] and c2 = tx_GetOne_cases[OF g2]
  show ?case
  proof (cases r1)
    case (Inl e)
    with Cons.prems g1 c1 show ?thesis by simp
  next
    case (Inr v)
    show ?thesis
    proof (cases r2)
      case (Inl e)
      with Cons.prems g1 g2 c1 c2 Inr show ?thesis by simp
    next
      case (Inr v')
      from Cons.prems g1 g2 \<open>r1 = Inr v\<close> Inr
      have "marshal_stages tx_GetOne sts (assign (''unwind_'' @ x) v' (assign x v m)) s2 = (r, s')"
        by simp
      from Cons.IH[OF this] c1 c2 show ?thesis by simp
    qed
  qed
qed

lemma Marshal_cases:
  assumes "MarshalMigrationPayload E tx_GetOne s = (r, s')"
  shows "tx s' = tx s \<and> disk s' = disk s \<and> log s' = log s"
proof -
  obtain r1 s1 where m: "marshal_stages tx_GetOne (stages_AllStages E) [] s = (r1, s1)"
    by fastforce
  with assms have "s' = s1" by (auto simp: MarshalMigrationPayload_def split: sum.splits)
  with marshal_stages_cases[OF m] show ?thesis by simp
qed

subsection \<open>The commit handler\<close>

text \<open>
  The handler sets the flag in completion mode and never clears it. A property \<open>P\<close> of
  the data that holds of the transaction and of what is committed still holds of both after
  the handler, if the writes of the handler keep it: the checkpoint under the prefixed key,
  and in completion mode the record under the name and the removal of the checkpoint.
\<close>

lemma handler_flag_log:
  assumes "commit_handler E n key isDone (c, s) = (r, c', s')"
  shows "c' = (c \<or> isDone) \<and> log s' = log s"
  using assms unfolding commit_handler_def
  by (auto split: if_splits option.splits prod.splits sum.splits
      dest!: tx_Put_cases tx_Delete_cases tx_CommitAndBegin_cases Marshal_cases)

lemma handler_checkpoint_keeps:
  assumes h: "commit_handler E n key False (c, s) = (r, c', s')"
    and P: "P (disk s)" "P (tx s)"
    and put_pk: "\<And>d k. P d \<Longrightarrow> P (put (''_progress_'' @ n) k d)"
  shows "P (disk s') \<and> P (tx s')"
proof -
  obtain r0 s0 where k: "(case key of None \<Rightarrow> (None, s)
      | Some k \<Rightarrow> tx_Put dbutils_Migrations (''_progress_'' @ n) k s) = (r0, s0)"
    by fastforce
  have P0: "P (disk s0) \<and> P (tx s0)"
  proof (cases key)
    case None
    with k P show ?thesis by simp
  next
    case (Some k')
    with k have "tx_Put dbutils_Migrations (''_progress_'' @ n) k' s = (r0, s0)" by simp
    from tx_Put_cases[OF this] P put_pk[OF P(2), of k'] show ?thesis by auto
  qed
  obtain r1 s1 where c: "tx_CommitAndBegin s0 = (r1, s1)" by fastforce
  from tx_CommitAndBegin_cases[OF c] P0 have P1: "P (disk s1) \<and> P (tx s1)" by auto
  from h k c have "s' = s0 \<or> s' = s1"
    by (auto simp: commit_handler_def split: option.splits)
  with P0 P1 show ?thesis by auto
qed

lemma handler_done_keeps:
  assumes h: "commit_handler E n key True (c, s) = (r, c', s')"
    and P: "P (disk s)" "P (tx s)"
    and del_pk: "\<And>d. P d \<Longrightarrow> P (del (''_progress_'' @ n) d)"
    and put_n: "\<And>d v. P d \<Longrightarrow> P (put n v d)"
  shows "P (disk s') \<and> P (tx s')"
proof -
  obtain rm s1 where m: "MarshalMigrationPayload E tx_GetOne s = (rm, s1)" by fastforce
  from Marshal_cases[OF m] P have P1: "P (disk s1) \<and> P (tx s1)" by simp
  show ?thesis
  proof (cases rm)
    case (Inl e)
    with h m have "s' = s1" by (simp add: commit_handler_def)
    with P1 show ?thesis by simp
  next
    case (Inr payload)
    obtain r2 s2 where p: "tx_Put dbutils_Migrations n payload s1 = (r2, s2)" by fastforce
    from tx_Put_cases[OF p] P1 put_n[of "tx s1" payload]
    have P2: "P (disk s2) \<and> P (tx s2)" by auto
    obtain r3 s3 where d: "tx_Delete dbutils_Migrations (''_progress_'' @ n) s2 = (r3, s3)"
      by fastforce
    from tx_Delete_cases[OF d] P2 del_pk[of "tx s2"]
    have P3: "P (disk s3) \<and> P (tx s3)" by auto
    obtain r4 s4 where c: "tx_CommitAndBegin s3 = (r4, s4)" by fastforce
    from tx_CommitAndBegin_cases[OF c] P3 have P4: "P (disk s4) \<and> P (tx s4)" by auto
    from h m Inr p d c have "s' = s2 \<or> s' = s3 \<or> s' = s4"
      by (auto simp: commit_handler_def split: option.splits)
    with P2 P3 P4 show ?thesis by auto
  qed
qed

lemma handler_keeps:
  assumes h: "commit_handler E n key isDone (c, s) = (r, c', s')"
    and P: "P (disk s)" "P (tx s)"
    and put_pk: "\<And>d k. P d \<Longrightarrow> P (put (''_progress_'' @ n) k d)"
    and del_pk: "\<And>d. P d \<Longrightarrow> P (del (''_progress_'' @ n) d)"
    and put_n: "\<And>d v. isDone \<Longrightarrow> P d \<Longrightarrow> P (put n v d)"
  shows "P (disk s') \<and> P (tx s')"
proof (cases isDone)
  case True
  with h have "commit_handler E n key True (c, s) = (r, c', s')" by simp
  from handler_done_keeps[of E n key c s r c' s' P, OF this P del_pk put_n[OF True]]
  show ?thesis by simp
next
  case False
  with h have "commit_handler E n key False (c, s) = (r, c', s')" by simp
  from handler_checkpoint_keeps[of E n key c s r c' s' P, OF this P put_pk]
  show ?thesis by simp
qed

subsection \<open>Running a unit body\<close>

text \<open>
  A run appends handler events of its unit only, the flag at the end tells whether one of
  them was a completion call, and the run keeps what every step of it keeps.
\<close>

lemma run_up_log:
  assumes "run_up E n t (c, s) = (r, c', s')"
  shows "\<exists>evs. log s' = log s @ evs
           \<and> (\<forall>e \<in> set evs. \<exists>key d x. e = HandlerCalled n key d x)
           \<and> c' = (c \<or> (\<exists>key x. HandlerCalled n key True x \<in> set evs))"
  using assms
proof (induction t arbitrary: c s)
  case (Return x)
  then show ?case by simp
next
  case (OnLoadCommit key d k)
  obtain r1 c1 s1 where h: "commit_handler E n key d (c, s) = (r1, c1, s1)"
    by (metis prod_cases3)
  from handler_flag_log[OF h] have c1: "c1 = (c \<or> d)" and l1: "log s1 = log s" by simp_all
  from OnLoadCommit.prems h
  have "run_up E n (k r1) (c1, s1\<lparr>log := log s1 @ [HandlerCalled n key d r1]\<rparr>) = (r, c', s')"
    by simp
  from OnLoadCommit.IH[OF rangeI this] obtain evs1 where
    e1: "log s' = (log s @ [HandlerCalled n key d r1]) @ evs1"
    and e2: "\<forall>e \<in> set evs1. \<exists>key d x. e = HandlerCalled n key d x"
    and e3: "c' = (c1 \<or> (\<exists>key x. HandlerCalled n key True x \<in> set evs1))"
    using l1 by auto
  show ?case
  proof (intro exI[of _ "HandlerCalled n key d r1 # evs1"] conjI)
    show "log s' = log s @ HandlerCalled n key d r1 # evs1" using e1 by simp
    show "\<forall>e\<in>set (HandlerCalled n key d r1 # evs1). \<exists>key d x. e = HandlerCalled n key d x"
      using e2 by simp
    show "c' = (c \<or> (\<exists>key' x. HandlerCalled n key' True x \<in> set (HandlerCalled n key d r1 # evs1)))"
      using e3 c1 by auto
  qed
next
  case (View k)
  from View.prems have "run_up E n (k (tx s)) (c, s) = (r, c', s')" by simp
  from View.IH[OF rangeI this] show ?case .
next
  case (Update f k)
  from Update.prems have "run_up E n k (c, s\<lparr>tx := f (tx s)\<rparr>) = (r, c', s')" by simp
  from Update.IH[OF this] show ?case by simp
qed

lemma run_up_keeps:
  assumes run: "run_up E n t (c, s) = (r, c', s')"
    and P: "P (disk s)" "P (tx s)"
    and ho: "hands_off t"
    and put_pk: "\<And>d k. P d \<Longrightarrow> P (put (''_progress_'' @ n) k d)"
    and del_pk: "\<And>d. P d \<Longrightarrow> P (del (''_progress_'' @ n) d)"
    and uw: "\<And>d d'. d' dbutils_Migrations = d dbutils_Migrations \<Longrightarrow> P d \<Longrightarrow> P d'"
    and put_n: "\<And>d v key x. HandlerCalled n key True x \<in> set (log s') \<Longrightarrow> P d \<Longrightarrow> P (put n v d)"
  shows "P (disk s') \<and> P (tx s')"
  using run P ho
proof (induction t arbitrary: c s)
  case (Return x)
  then show ?case by simp
next
  case (OnLoadCommit key d k)
  obtain r1 c1 s1 where h: "commit_handler E n key d (c, s) = (r1, c1, s1)"
    by (metis prod_cases3)
  let ?s1 = "s1\<lparr>log := log s1 @ [HandlerCalled n key d r1]\<rparr>"
  from OnLoadCommit.prems(1) h
  have rest: "run_up E n (k r1) (c1, ?s1) = (r, c', s')" by simp
  from OnLoadCommit.prems(4) have ho1: "hands_off (k r1)" by simp
  from run_up_log[OF rest] have ev: "HandlerCalled n key d r1 \<in> set (log s')" by auto
  have pn: "\<And>d' v. d \<Longrightarrow> P d' \<Longrightarrow> P (put n v d')"
  proof -
    fix d' v
    assume "d" and Pd: "P d'"
    with ev have "HandlerCalled n key True r1 \<in> set (log s')" by simp
    from put_n[OF this Pd] show "P (put n v d')" .
  qed
  from handler_keeps[of E n key d c s r1 c1 s1 P, OF h OnLoadCommit.prems(2,3) put_pk del_pk pn]
  have "P (disk ?s1)" "P (tx ?s1)" by simp_all
  from OnLoadCommit.IH[OF rangeI rest this ho1] show ?case .
next
  case (View k)
  from View.prems(1) have rest: "run_up E n (k (tx s)) (c, s) = (r, c', s')" by simp
  from View.prems(4) have "hands_off (k (tx s))" by simp
  from View.IH[OF rangeI rest View.prems(2,3) this] show ?case .
next
  case (Update f k)
  let ?s1 = "s\<lparr>tx := f (tx s)\<rparr>"
  from Update.prems(1) have rest: "run_up E n k (c, ?s1) = (r, c', s')" by simp
  from Update.prems(4) have same: "f (tx s) dbutils_Migrations = tx s dbutils_Migrations"
    and ho1: "hands_off k" by simp_all
  have "P (disk ?s1)" "P (tx ?s1)"
    using Update.prems(2,3) uw[of "f (tx s)" "tx s", OF same] by simp_all
  from Update.IH[OF rest this ho1] show ?case .
qed

subsection \<open>One round of the loop\<close>

lemma invoked_append: "invoked (xs @ ys) = invoked xs @ invoked ys"
  by (induction xs rule: invoked.induct) simp_all

lemma invoked_handlers:
  "\<forall>e \<in> set hs. \<exists>key d x. e = HandlerCalled n key d x \<Longrightarrow> invoked hs = []"
  by (induction hs) auto

lemma invoked_names: "set (invoked es) \<subseteq> event_name ` set es"
  by (induction es rule: invoked.induct) auto

lemma invoked_UpCalled: "(n \<in> set (invoked es)) = (\<exists>p. UpCalled n p \<in> set es)"
  by (induction es rule: invoked.induct) auto

lemma apply_unit_log:
  assumes "apply_unit E dd v s = (r, s')"
  shows "\<exists>evs. log s' = log s @ evs \<and>
     (evs = [] \<and> r = Some ErrStore \<or>
      (\<exists>p hs r0. evs = UpCalled (Name v) p # hs @ [UpReturned (Name v) r0]
         \<and> (\<forall>e \<in> set hs. \<exists>key d x. e = HandlerCalled (Name v) key d x)
         \<and> r = (case r0 of
                  Some err \<Rightarrow> Some err
                | None \<Rightarrow> if \<exists>key x. HandlerCalled (Name v) key True x \<in> set hs then None
                          else Some (Errorf [] ErrMigrationCommitNotCalled ('': '' @ Name v)))))"
proof -
  obtain g s1 where g: "tx_GetOne dbutils_Migrations (''_progress_'' @ Name v) s = (g, s1)"
    by fastforce
  note g1 = tx_GetOne_cases[OF g]
  show ?thesis
  proof (cases g)
    case (Inl err)
    with assms g g1 have "s' = s1" "r = Some ErrStore" by (auto simp: apply_unit_def)
    with g1 show ?thesis by simp
  next
    case (Inr p)
    let ?s1 = "s1\<lparr>log := log s1 @ [UpCalled (Name v) p]\<rparr>"
    obtain r0 c2 s2 where run: "run_up E (Name v)
        (Up v (path_Join E [dd, ''migrations'', Name v]) p) (False, ?s1) = (r0, c2, s2)"
      by (metis prod_cases3)
    from run_up_log[OF run] obtain hs where
      hs: "log s2 = log ?s1 @ hs" "\<forall>e \<in> set hs. \<exists>key d x. e = HandlerCalled (Name v) key d x"
        "c2 = (\<exists>key x. HandlerCalled (Name v) key True x \<in> set hs)"
      by auto
    from assms g Inr run have s': "s' = s2\<lparr>log := log s2 @ [UpReturned (Name v) r0]\<rparr>"
      and r: "r = (case r0 of Some err \<Rightarrow> Some err
                | None \<Rightarrow> if c2 then None
                          else Some (Errorf [] ErrMigrationCommitNotCalled ('': '' @ Name v)))"
      by (auto simp: apply_unit_def Let_def split: option.splits if_splits)
    have "log s' = log s @ (UpCalled (Name v) p # hs @ [UpReturned (Name v) r0])"
      using s' hs(1) g1 by simp
    with hs(2) r hs(3) show ?thesis by blast
  qed
qed

lemma apply_unit_keeps:
  assumes run: "apply_unit E dd v s = (r, s')"
    and P: "P (disk s)" "P (tx s)"
    and put_pk: "\<And>d k. P d \<Longrightarrow> P (put (''_progress_'' @ Name v) k d)"
    and del_pk: "\<And>d. P d \<Longrightarrow> P (del (''_progress_'' @ Name v) d)"
    and ho: "\<And>tmpdir progress. hands_off (Up v tmpdir progress)"
    and uw: "\<And>d d'. d' dbutils_Migrations = d dbutils_Migrations \<Longrightarrow> P d \<Longrightarrow> P d'"
    and put_n: "\<And>d x key y. HandlerCalled (Name v) key True y \<in> set (log s') \<Longrightarrow> P d
                  \<Longrightarrow> P (put (Name v) x d)"
  shows "P (disk s') \<and> P (tx s')"
proof -
  obtain g s1 where g: "tx_GetOne dbutils_Migrations (''_progress_'' @ Name v) s = (g, s1)"
    by fastforce
  note g1 = tx_GetOne_cases[OF g]
  show ?thesis
  proof (cases g)
    case (Inl err)
    with run g have "s' = s1" by (auto simp: apply_unit_def)
    with g1 P show ?thesis by simp
  next
    case (Inr p)
    let ?s1 = "s1\<lparr>log := log s1 @ [UpCalled (Name v) p]\<rparr>"
    obtain r0 c2 s2 where ru: "run_up E (Name v)
        (Up v (path_Join E [dd, ''migrations'', Name v]) p) (False, ?s1) = (r0, c2, s2)"
      by (metis prod_cases3)
    from run g Inr ru have s': "s' = s2\<lparr>log := log s2 @ [UpReturned (Name v) r0]\<rparr>"
      by (auto simp: apply_unit_def Let_def split: option.splits if_splits)
    have pn: "\<And>d x key y. HandlerCalled (Name v) key True y \<in> set (log s2) \<Longrightarrow> P d
                  \<Longrightarrow> P (put (Name v) x d)"
      using put_n s' by simp
    have P1: "P (disk ?s1)" "P (tx ?s1)" using P g1 by simp_all
    have keep: "P (disk s2) \<and> P (tx s2)"
    proof (rule run_up_keeps[of E "Name v" _ False ?s1 r0 c2 s2 P, OF ru P1 ho])
      show "\<And>d k. P d \<Longrightarrow> P (put (''_progress_'' @ Name v) k d)" by (rule put_pk)
      show "\<And>d. P d \<Longrightarrow> P (del (''_progress_'' @ Name v) d)" by (rule del_pk)
      show "\<And>d d'. d' dbutils_Migrations = d dbutils_Migrations \<Longrightarrow> P d \<Longrightarrow> P d'"
        by (rule uw)
      show "\<And>d x key y. HandlerCalled (Name v) key True y \<in> set (log s2) \<Longrightarrow> P d
                  \<Longrightarrow> P (put (Name v) x d)" by (rule pn)
    qed
    with s' show ?thesis by simp
  qed
qed

subsection \<open>The loop\<close>

text \<open>
  The loop appends events of units that are not applied; when it ends without error, the
  units called are exactly those, in the order of registration.
\<close>

lemma apply_loop_log:
  assumes "apply_loop E dd applied ms s = (r, s')"
  shows "\<exists>evs. log s' = log s @ evs
     \<and> (\<forall>e \<in> set evs. \<exists>v \<in> set ms. applied (Name v) = None \<and> event_name e = Name v)
     \<and> (r = None \<longrightarrow> invoked evs = map Name (filter (\<lambda>v. applied (Name v) = None) ms))"
  using assms
proof (induction ms arbitrary: s)
  case Nil
  then show ?case by simp
next
  case (Cons v vs)
  show ?case
  proof (cases "applied (Name v)")
    case (Some a)
    with Cons.prems have "apply_loop E dd applied vs s = (r, s')" by simp
    from Cons.IH[OF this] Some show ?thesis by auto
  next
    case None
    obtain r1 s1 where u: "apply_unit E dd v s = (r1, s1)" by fastforce
    from apply_unit_log[OF u] obtain ev1 where
      l1: "log s1 = log s @ ev1"
      and st: "ev1 = [] \<and> r1 = Some ErrStore \<or>
        (\<exists>p hs r0. ev1 = UpCalled (Name v) p # hs @ [UpReturned (Name v) r0]
           \<and> (\<forall>e \<in> set hs. \<exists>key d x. e = HandlerCalled (Name v) key d x)
           \<and> r1 = (case r0 of Some err \<Rightarrow> Some err
                | None \<Rightarrow> if \<exists>key x. HandlerCalled (Name v) key True x \<in> set hs then None
                          else Some (Errorf [] ErrMigrationCommitNotCalled ('': '' @ Name v))))"
      by blast
    from st have names: "\<forall>e \<in> set ev1. event_name e = Name v" by fastforce
    show ?thesis
    proof (cases r1)
      case (Some err)
      with Cons.prems None u have "r = Some err" "s' = s1" by simp_all
      with l1 names None show ?thesis by auto
    next
      case r1: None
      with Cons.prems None u have rest: "apply_loop E dd applied vs s1 = (r, s')" by simp
      from Cons.IH[OF rest] obtain ev2 where
        l2: "log s' = log s1 @ ev2"
        and n2: "\<forall>e \<in> set ev2. \<exists>v \<in> set vs. applied (Name v) = None \<and> event_name e = Name v"
        and i2: "r = None \<longrightarrow> invoked ev2 = map Name (filter (\<lambda>v. applied (Name v) = None) vs)"
        by blast
      from st r1 obtain p hs r0 where
        ev1: "ev1 = UpCalled (Name v) p # hs @ [UpReturned (Name v) r0]"
        and hs: "\<forall>e \<in> set hs. \<exists>key d x. e = HandlerCalled (Name v) key d x"
        by auto
      have i1: "invoked ev1 = [Name v]"
        using invoked_handlers[OF hs] by (simp add: ev1 invoked_append)
      show ?thesis
      proof (intro exI[of _ "ev1 @ ev2"] conjI)
        show "log s' = log s @ ev1 @ ev2" using l1 l2 by simp
        show "\<forall>e\<in>set (ev1 @ ev2). \<exists>v\<in>set (v # vs). applied (Name v) = None \<and> event_name e = Name v"
          using names n2 None by auto
        show "r = None \<longrightarrow> invoked (ev1 @ ev2) = map Name (filter (\<lambda>v. applied (Name v) = None) (v # vs))"
          using i1 i2 None by (simp add: invoked_append)
      qed
    qed
  qed
qed

lemma apply_loop_keeps:
  assumes run: "apply_loop E dd applied ms s = (r, s')"
    and P: "P (disk s)" "P (tx s)"
    and ho: "\<And>v tmpdir progress. v \<in> set ms \<Longrightarrow> applied (Name v) = None
                  \<Longrightarrow> hands_off (Up v tmpdir progress)"
    and put_pk: "\<And>v d k. v \<in> set ms \<Longrightarrow> applied (Name v) = None \<Longrightarrow> P d
                  \<Longrightarrow> P (put (''_progress_'' @ Name v) k d)"
    and del_pk: "\<And>v d. v \<in> set ms \<Longrightarrow> applied (Name v) = None \<Longrightarrow> P d
                  \<Longrightarrow> P (del (''_progress_'' @ Name v) d)"
    and uw: "\<And>d d'. d' dbutils_Migrations = d dbutils_Migrations \<Longrightarrow> P d \<Longrightarrow> P d'"
    and put_n: "\<And>v d x key y. v \<in> set ms \<Longrightarrow> applied (Name v) = None
                  \<Longrightarrow> HandlerCalled (Name v) key True y \<in> set (log s') \<Longrightarrow> P d
                  \<Longrightarrow> P (put (Name v) x d)"
  shows "P (disk s') \<and> P (tx s')"
  using run P ho put_pk del_pk put_n
proof (induction ms arbitrary: s)
  case Nil
  then show ?case by simp
next
  case (Cons v vs)
  have p3: "\<And>w tmpdir progress. w \<in> set vs \<Longrightarrow> applied (Name w) = None
              \<Longrightarrow> hands_off (Up w tmpdir progress)"
    by (rule Cons.prems(4)) simp_all
  have p4: "\<And>w d k. w \<in> set vs \<Longrightarrow> applied (Name w) = None \<Longrightarrow> P d
              \<Longrightarrow> P (put (''_progress_'' @ Name w) k d)"
    by (rule Cons.prems(5)) simp_all
  have p5: "\<And>w d. w \<in> set vs \<Longrightarrow> applied (Name w) = None \<Longrightarrow> P d
              \<Longrightarrow> P (del (''_progress_'' @ Name w) d)"
    by (rule Cons.prems(6)) simp_all
  have p6: "\<And>w d x key y. w \<in> set vs \<Longrightarrow> applied (Name w) = None
              \<Longrightarrow> HandlerCalled (Name w) key True y \<in> set (log s') \<Longrightarrow> P d
              \<Longrightarrow> P (put (Name w) x d)"
    by (rule Cons.prems(7)) simp_all
  show ?case
  proof (cases "applied (Name v)")
    case (Some a)
    with Cons.prems(1) have rest: "apply_loop E dd applied vs s = (r, s')" by simp
    show ?thesis
      by (rule Cons.IH[OF rest Cons.prems(2,3) p3 p4 p5 p6])
  next
    case None
    obtain r1 s1 where u: "apply_unit E dd v s = (r1, s1)" by fastforce
    have sub: "set (log s1) \<subseteq> set (log s')"
    proof (cases r1)
      case (Some err)
      with Cons.prems(1) None u show ?thesis by simp
    next
      case r1: None
      with Cons.prems(1) None u have "apply_loop E dd applied vs s1 = (r, s')" by simp
      from apply_loop_log[OF this] show ?thesis by auto
    qed
    have P1: "P (disk s1) \<and> P (tx s1)"
    proof (rule apply_unit_keeps[of E dd v s r1 s1 P, OF u Cons.prems(2,3)])
      show "\<And>tmpdir progress. hands_off (Up v tmpdir progress)"
        by (rule Cons.prems(4)) (simp_all add: None)
      show "\<And>d k. P d \<Longrightarrow> P (put (''_progress_'' @ Name v) k d)"
        by (rule Cons.prems(5)) (simp_all add: None)
      show "\<And>d. P d \<Longrightarrow> P (del (''_progress_'' @ Name v) d)"
        by (rule Cons.prems(6)) (simp_all add: None)
      show "\<And>d d'. d' dbutils_Migrations = d dbutils_Migrations \<Longrightarrow> P d \<Longrightarrow> P d'"
        by (rule uw)
      show "\<And>d x key y. HandlerCalled (Name v) key True y \<in> set (log s1) \<Longrightarrow> P d
              \<Longrightarrow> P (put (Name v) x d)"
      proof -
        fix d x key y
        assume "HandlerCalled (Name v) key True y \<in> set (log s1)" and Pd: "P d"
        with sub have ev: "HandlerCalled (Name v) key True y \<in> set (log s')" by blast
        show "P (put (Name v) x d)"
          by (rule Cons.prems(7)[OF _ None ev Pd]) simp
      qed
    qed
    show ?thesis
    proof (cases r1)
      case (Some err)
      with Cons.prems(1) None u have "s' = s1" by simp
      with P1 show ?thesis by simp
    next
      case r1: None
      with Cons.prems(1) None u have rest: "apply_loop E dd applied vs s1 = (r, s')" by simp
      show ?thesis
        by (rule Cons.IH[OF rest conjunct1[OF P1] conjunct2[OF P1] p3 p4 p5 p6])
    qed
  qed
qed

text \<open>
  A body that returned nil without any completion call stops the loop with
  \<^verbatim>\<open>CommitNotCalled\<close>. A completion call that succeeded has committed the record.
\<close>

lemma apply_loop_returned_nil:
  assumes "apply_loop E dd applied ms s = (r, s')" "log s' = log s @ evs"
    and "UpReturned n None \<in> set evs"
    and "\<forall>key x. HandlerCalled n key True x \<notin> set evs"
  shows "r = Some (Errorf [] ErrMigrationCommitNotCalled ('': '' @ n))"
  using assms
proof (induction ms arbitrary: s evs)
  case Nil
  then show ?case by simp
next
  case (Cons v vs)
  show ?case
  proof (cases "applied (Name v)")
    case (Some a)
    with Cons.prems(1) have "apply_loop E dd applied vs s = (r, s')" by simp
    from Cons.IH[OF this Cons.prems(2-4)] show ?thesis .
  next
    case None
    obtain r1 s1 where u: "apply_unit E dd v s = (r1, s1)" by fastforce
    from apply_unit_log[OF u] obtain ev1 where
      l1: "log s1 = log s @ ev1"
      and st: "ev1 = [] \<and> r1 = Some ErrStore \<or>
        (\<exists>p hs r0. ev1 = UpCalled (Name v) p # hs @ [UpReturned (Name v) r0]
           \<and> (\<forall>e \<in> set hs. \<exists>key d x. e = HandlerCalled (Name v) key d x)
           \<and> r1 = (case r0 of Some err \<Rightarrow> Some err
                | None \<Rightarrow> if \<exists>key x. HandlerCalled (Name v) key True x \<in> set hs then None
                          else Some (Errorf [] ErrMigrationCommitNotCalled ('': '' @ Name v))))"
      by blast
    show ?thesis
    proof (cases r1)
      case (Some err)
      with Cons.prems(1) None u have rs: "r = r1" "s' = s1" by simp_all
      with l1 Cons.prems(2) have "evs = ev1" by simp
      with st Cons.prems(3,4) rs(1) show ?thesis by (auto split: option.splits if_splits)
    next
      case r1: None
      with Cons.prems(1) None u have rest: "apply_loop E dd applied vs s1 = (r, s')" by simp
      from apply_loop_log[OF rest] obtain ev2 where l2: "log s' = log s1 @ ev2" by blast
      with l1 Cons.prems(2) have evs: "evs = ev1 @ ev2" by simp
      from st r1 obtain p hs key x where
        ev1: "ev1 = UpCalled (Name v) p # hs @ [UpReturned (Name v) None]"
        and hs: "\<forall>e \<in> set hs. \<exists>key d x. e = HandlerCalled (Name v) key d x"
        and cmpl: "HandlerCalled (Name v) key True x \<in> set hs"
        by (auto split: option.splits if_splits)
      from cmpl ev1 evs Cons.prems(4) have "n \<noteq> Name v" by auto
      with ev1 hs have "UpReturned n None \<notin> set ev1" by auto
      with Cons.prems(3) evs have in2: "UpReturned n None \<in> set ev2" by simp
      from Cons.prems(4) evs have "\<forall>key x. HandlerCalled n key True x \<notin> set ev2" by simp
      from Cons.IH[OF rest l2 in2 this] show ?thesis .
    qed
  qed
qed

lemma handler_done_ok:
  assumes "commit_handler E n key True (c, s) = (None, c', s')"
  shows "tx s' dbutils_Migrations n \<noteq> None \<and> disk s' = tx s'"
proof -
  obtain rm s1 where m: "MarshalMigrationPayload E tx_GetOne s = (rm, s1)" by fastforce
  show ?thesis
  proof (cases rm)
    case (Inl e)
    with assms m show ?thesis by (simp add: commit_handler_def)
  next
    case (Inr payload)
    obtain r2 s2 where p: "tx_Put dbutils_Migrations n payload s1 = (r2, s2)" by fastforce
    obtain r3 s3 where d: "tx_Delete dbutils_Migrations (''_progress_'' @ n) s2 = (r3, s3)"
      by fastforce
    obtain r4 s4 where c: "tx_CommitAndBegin s3 = (r4, s4)" by fastforce
    from assms m Inr p d c have ok: "r2 = None" "r3 = None" "r4 = None" "s' = s4"
      by (auto simp: commit_handler_def split: option.splits)
    from tx_Put_cases[OF p] ok have "tx s2 dbutils_Migrations n \<noteq> None" by auto
    with tx_Delete_cases[OF d] ok have "tx s3 dbutils_Migrations n \<noteq> None" by auto
    with tx_CommitAndBegin_cases[OF c] ok show ?thesis by auto
  qed
qed

lemma run_up_completed:
  assumes "run_up E n t (c, s) = (r, c', s')" "log s' = log s @ evs"
    and "HandlerCalled n key True None \<in> set evs" "hands_off t"
  shows "disk s' dbutils_Migrations n \<noteq> None \<and> tx s' dbutils_Migrations n \<noteq> None"
  using assms
proof (induction t arbitrary: c s evs)
  case (Return x)
  then show ?case by simp
next
  case (OnLoadCommit key' d k)
  obtain r1 c1 s1 where h: "commit_handler E n key' d (c, s) = (r1, c1, s1)"
    by (metis prod_cases3)
  let ?s1 = "s1\<lparr>log := log s1 @ [HandlerCalled n key' d r1]\<rparr>"
  from OnLoadCommit.prems(1) h
  have rest: "run_up E n (k r1) (c1, ?s1) = (r, c', s')" by simp
  from OnLoadCommit.prems(4) have ho1: "hands_off (k r1)" by simp
  from run_up_log[OF rest] obtain evs1 where l1: "log s' = log ?s1 @ evs1" by blast
  with handler_flag_log[OF h] OnLoadCommit.prems(2)
  have evs: "evs = HandlerCalled n key' d r1 # evs1" by simp
  show ?case
  proof (cases "HandlerCalled n key True None \<in> set evs1")
    case True
    from OnLoadCommit.IH[OF rangeI rest l1 True ho1] show ?thesis .
  next
    case False
    with evs OnLoadCommit.prems(3) have eq: "key' = key" "d" "r1 = None" by auto
    with h have "commit_handler E n key True (c, s) = (None, c1, s1)" by simp
    from handler_done_ok[OF this]
    have P1: "disk ?s1 dbutils_Migrations n \<noteq> None" "tx ?s1 dbutils_Migrations n \<noteq> None"
      by simp_all
    show ?thesis
      by (rule run_up_keeps[of E n "k r1" c1 ?s1 r c' s' "\<lambda>d. d dbutils_Migrations n \<noteq> None",
            OF rest P1 ho1]) simp_all
  qed
next
  case (View k)
  from View.prems(1) have rest: "run_up E n (k (tx s)) (c, s) = (r, c', s')" by simp
  from View.prems(4) have "hands_off (k (tx s))" by simp
  from View.IH[OF rangeI rest View.prems(2,3) this] show ?case .
next
  case (Update f k)
  let ?s1 = "s\<lparr>tx := f (tx s)\<rparr>"
  from Update.prems(1) have rest: "run_up E n k (c, ?s1) = (r, c', s')" by simp
  from Update.prems(4) have "hands_off k" by simp
  from Update.IH[OF rest _ Update.prems(3) this] Update.prems(2) show ?case by simp
qed

subsection \<open>The listing queries and the payload\<close>

lemmas store_ops = fails_def db_Begin_def tx_Rollback_def tx_GetOne_def tx_Put_def tx_Delete_def
  tx_CommitAndBegin_def tx_Commit_def db_GetOne_def
lemmas engine = Apply_def apply_tx_def apply_unit_def commit_handler_def AppliedMigrations_def
  applied_walk_def MarshalMigrationPayload_def len_def assign_def
  PendingMigrations_def HasPendingMigrations_def make_slice_def
lemmas fixtures = test_env_def NewTestDB_def completes_def returns_nil_def must_not_run_def
  completes_then_checkpoints_def completes_then_fails_def db_Put_def
  writes_own_record_def deletes_then_completes_def completes_deletes_fails_def

lemma pending_append_filter:
  "pending_append applied ms pending = pending @ filter (\<lambda>v. applied (Name v) = None) ms"
  by (induction ms arbitrary: pending) (auto split: option.splits)

text \<open>The count of the first loop is the length of what the second loop appends.\<close>

lemma pending_counter_length:
  "pending_counter applied ms counter = counter + length (pending_append applied ms [])"
  by (induction ms arbitrary: counter) (auto simp: pending_append_filter split: option.splits)

text \<open>
  Claim C9. When the scan of the applied names succeeds with the set \<open>applied\<close>,
  \<^verbatim>\<open>PendingMigrations\<close> returns the registered units whose names are not in
  \<open>applied\<close>, in the order of registration and nothing else, and
  \<^verbatim>\<open>HasPendingMigrations\<close> returns true exactly when that list is not empty.
\<close>

theorem PendingMigrations_subsequence:
  assumes "AppliedMigrations False s = ((applied, None), s')"
  shows "PendingMigrations m s
           = (Inr (filter (\<lambda>v. applied (Name v) = None) (Migrations m)), s')
       \<and> HasPendingMigrations m s
           = (Inr (filter (\<lambda>v. applied (Name v) = None) (Migrations m) \<noteq> []), s')"
  using assms
  by (simp add: PendingMigrations_def HasPendingMigrations_def pending_append_filter make_slice_def)

theorem PendingMigrations_subsequence_witness:
  "PendingMigrations \<lparr>Migrations = [must_not_run ''one'', completes ''two'']\<rparr>
       (db_Put dbutils_Migrations ''one'' [CHR 0x01] NewTestDB)
     = (Inr [completes ''two''], db_Put dbutils_Migrations ''one'' [CHR 0x01] NewTestDB)
   \<and> HasPendingMigrations \<lparr>Migrations = [must_not_run ''one'', completes ''two'']\<rparr>
       (db_Put dbutils_Migrations ''one'' [CHR 0x01] NewTestDB)
     = (Inr True, db_Put dbutils_Migrations ''one'' [CHR 0x01] NewTestDB)"
proof -
  let ?s = "db_Put dbutils_Migrations ''one'' [CHR 0x01] NewTestDB"
  have h: "AppliedMigrations False ?s
      = ((applied_walk (disk ?s dbutils_Migrations) False, None), ?s)"
    by (simp add: AppliedMigrations_def fails_def NewTestDB_def db_Put_def)
  show ?thesis
    using PendingMigrations_subsequence[OF h, of "\<lparr>Migrations = [must_not_run ''one'', completes ''two'']\<rparr>"]
    by (simp add: applied_walk_def NewTestDB_def db_Put_def must_not_run_def completes_def)
qed

text \<open>
  Claim C6 says that a name is in the result of \<^verbatim>\<open>AppliedMigrations\<close> exactly when
  the bucket has a record under that name, also for names that begin with
  \<^verbatim>\<open>_progress_\<close>. The bucket below has a record under \<^verbatim>\<open>_progress_one\<close>, and
  the name is not in the result: the walk passes over every key with the prefix.
\<close>

theorem AppliedMigrations_skips_prefix:
  "\<not> ((fst (fst (AppliedMigrations False
            (db_Put dbutils_Migrations ''_progress_one'' [CHR 0x01] NewTestDB))) ''_progress_one'' \<noteq> None)
      = (disk (db_Put dbutils_Migrations ''_progress_one'' [CHR 0x01] NewTestDB)
            dbutils_Migrations ''_progress_one'' \<noteq> None))"
  by (simp add: AppliedMigrations_def fails_def NewTestDB_def db_Put_def applied_walk_def)

text \<open>
  Claim C6, amended. A name is in the result of a scan that succeeds exactly when the
  bucket has a record under that name and the name does not begin with
  \<^verbatim>\<open>_progress_\<close>. So a name without a record is not applied, whatever checkpoint
  is left under the prefixed key.
\<close>

theorem AppliedMigrations_iff:
  assumes "AppliedMigrations withPayload s = ((applied, None), s')"
  shows "(applied name \<noteq> None)
       = (disk s dbutils_Migrations name \<noteq> None \<and> \<not> prefix ''_progress_'' name)"
proof (cases "fails s")
  case (Pair f s1)
  with assms fails_cases[OF Pair] show ?thesis
    by (cases f) (auto simp: AppliedMigrations_def applied_walk_def split: option.splits)
qed

theorem AppliedMigrations_iff_witness:
  "(fst (fst (AppliedMigrations True (db_Put dbutils_Migrations ''one'' [CHR 0x01] NewTestDB)))
       ''one'' \<noteq> None)
   = (disk (db_Put dbutils_Migrations ''one'' [CHR 0x01] NewTestDB) dbutils_Migrations ''one'' \<noteq> None
       \<and> \<not> prefix ''_progress_'' ''one'')"
proof -
  let ?s = "db_Put dbutils_Migrations ''one'' [CHR 0x01] NewTestDB"
  have h: "AppliedMigrations True ?s
      = ((fst (fst (AppliedMigrations True ?s)), None), ?s)"
    by (simp add: AppliedMigrations_def fails_def NewTestDB_def db_Put_def)
  show ?thesis
    using AppliedMigrations_iff[OF h, of "''one''"] .
qed

text \<open>
  Claim C8. A handle (the open transaction or the database) in which one stage of
  \<^verbatim>\<open>stages.AllStages\<close> has a non-empty forward progress \<open>v\<close> and no stage has
  a non-empty value in the other stages' progress or in the unwind bucket: marshalling
  succeeds, and unmarshalling its result gives the mapping with the one entry from the
  stage's name to \<open>v\<close>. Lengths in Go are below \<open>2\<^sup>6\<^sup>4\<close>.
\<close>

theorem payload_roundtrip:
  assumes "faults st = []"
    and "(get = tx_GetOne \<and> h = tx st) \<or> (get = db_GetOne \<and> h = disk st)"
    and "stage \<in> set (stages_AllStages E)"
    and "h dbutils_SyncStageProgress stage = Some v" "v \<noteq> []"
    and "\<forall>x \<in> set (stages_AllStages E). x \<noteq> stage \<longrightarrow> len (h dbutils_SyncStageProgress x) = 0"
    and "\<forall>x \<in> set (stages_AllStages E). len (h dbutils_SyncStageUnwind x) = 0"
    and "length stage < 2 ^ 64" "length v < 2 ^ 64"
  shows "\<exists>data. MarshalMigrationPayload E get st = (Inr data, st)
           \<and> UnmarshalMigrationPayload data = Inr [stage \<mapsto> v]"
proof -
  have get: "\<And>b k. get b k st = (Inr (h b k), st)"
    using assms(1,2) by (auto simp: tx_GetOne_healthy db_GetOne_healthy)
  have "marshal_stages get (stages_AllStages E) [] st = (Inr [(stage, v)], st)"
    using fold_one_stage[OF assms(7) assms(6) assms(4) assms(5), of "[]"] assms(3)
    by (simp add: marshal_stages_healthy[of get st h, OF get])
  moreover have "cbor_Decode (cbor_Encode [(stage, v)]) = Some [stage \<mapsto> v]"
    using cbor_roundtrip[of "[(stage, v)]"] assms(8,9) by simp
  ultimately show ?thesis
    by (simp add: MarshalMigrationPayload_def UnmarshalMigrationPayload_def)
qed

theorem payload_roundtrip_witness:
  "\<exists>data. MarshalMigrationPayload test_env db_GetOne
        (NewTestDB\<lparr>disk := (disk NewTestDB)(dbutils_SyncStageProgress :=
            [''Execution'' \<mapsto> [CHR 0x00, CHR 0x00, CHR 0x00, CHR 0x00,
                                 CHR 0x00, CHR 0x00, CHR 0x00, CHR 0x2A]])\<rparr>)
      = (Inr data, NewTestDB\<lparr>disk := (disk NewTestDB)(dbutils_SyncStageProgress :=
            [''Execution'' \<mapsto> [CHR 0x00, CHR 0x00, CHR 0x00, CHR 0x00,
                                 CHR 0x00, CHR 0x00, CHR 0x00, CHR 0x2A]])\<rparr>)
    \<and> UnmarshalMigrationPayload data
      = Inr [''Execution'' \<mapsto> [CHR 0x00, CHR 0x00, CHR 0x00, CHR 0x00,
                                  CHR 0x00, CHR 0x00, CHR 0x00, CHR 0x2A]]"
  by (rule payload_roundtrip[where h = "disk (NewTestDB\<lparr>disk := (disk NewTestDB)(dbutils_SyncStageProgress :=
            [''Execution'' \<mapsto> [CHR 0x00, CHR 0x00, CHR 0x00, CHR 0x00,
                                 CHR 0x00, CHR 0x00, CHR 0x00, CHR 0x2A]])\<rparr>)"])
    (simp_all add: NewTestDB_def test_env_def len_def)

subsection \<open>Runs on a store that works\<close>

text \<open>
  When no operation of the store fails, the handler returns nil, and a unit that passed the
  check has its record in the transaction and in what is committed.
\<close>

lemma tx_Put_healthy:
  "faults s = [] \<Longrightarrow> tx_Put b k v s = (None, s\<lparr>tx := (tx s)(b := (tx s b)(k \<mapsto> v))\<rparr>)"
  by (simp add: tx_Put_def fails_healthy)

lemma tx_Delete_healthy:
  "faults s = [] \<Longrightarrow> tx_Delete b k s = (None, s\<lparr>tx := (tx s)(b := (tx s b)(k := None))\<rparr>)"
  by (simp add: tx_Delete_def fails_healthy)

lemma tx_CommitAndBegin_healthy:
  "faults s = [] \<Longrightarrow> tx_CommitAndBegin s = (None, s\<lparr>disk := tx s\<rparr>)"
  by (simp add: tx_CommitAndBegin_def fails_healthy)

lemma Marshal_healthy:
  assumes "faults s = []"
  shows "\<exists>payload. MarshalMigrationPayload E tx_GetOne s = (Inr payload, s)"
proof -
  have get: "\<And>b k. tx_GetOne b k s = (Inr (tx s b k), s)"
    using assms by (simp add: tx_GetOne_healthy)
  show ?thesis
    by (simp add: MarshalMigrationPayload_def marshal_stages_healthy[of tx_GetOne s "tx s", OF get])
qed

lemma handler_healthy:
  assumes "faults s = []" "commit_handler E n key d (c, s) = (r, c', s')"
  shows "r = None \<and> faults s' = []"
proof (cases d)
  case True
  obtain payload where m: "MarshalMigrationPayload E tx_GetOne s = (Inr payload, s)"
    using Marshal_healthy[OF assms(1)] by blast
  from assms True m show ?thesis
    by (auto simp: commit_handler_def tx_Put_healthy tx_Delete_healthy tx_CommitAndBegin_healthy)
next
  case False
  with assms show ?thesis
    by (cases key)
      (auto simp: commit_handler_def tx_Put_healthy tx_CommitAndBegin_healthy)
qed

lemma run_up_healthy:
  assumes "faults s = []" "run_up E n t (c, s) = (r, c', s')" "log s' = log s @ evs"
  shows "faults s' = [] \<and> (\<forall>key d x. HandlerCalled n key d x \<in> set evs \<longrightarrow> x = None)"
  using assms
proof (induction t arbitrary: c s evs)
  case (Return x)
  then show ?case by simp
next
  case (OnLoadCommit key' d k)
  obtain r1 c1 s1 where h: "commit_handler E n key' d (c, s) = (r1, c1, s1)"
    by (metis prod_cases3)
  from handler_healthy[OF OnLoadCommit.prems(1) h] have ok: "r1 = None" "faults s1 = []"
    by simp_all
  let ?s1 = "s1\<lparr>log := log s1 @ [HandlerCalled n key' d r1]\<rparr>"
  from OnLoadCommit.prems(2) h
  have rest: "run_up E n (k r1) (c1, ?s1) = (r, c', s')" by simp
  from run_up_log[OF rest] obtain evs1 where l1: "log s' = log ?s1 @ evs1" by blast
  with handler_flag_log[OF h] OnLoadCommit.prems(3)
  have evs: "evs = HandlerCalled n key' d r1 # evs1" by simp
  have "faults ?s1 = []" using ok by simp
  from OnLoadCommit.IH[OF rangeI this rest l1] evs ok show ?case by auto
next
  case (View k)
  from View.prems(2) have "run_up E n (k (tx s)) (c, s) = (r, c', s')" by simp
  from View.IH[OF rangeI View.prems(1) this View.prems(3)] show ?case .
next
  case (Update f k)
  let ?s1 = "s\<lparr>tx := f (tx s)\<rparr>"
  from Update.prems(2) have rest: "run_up E n k (c, ?s1) = (r, c', s')" by simp
  have "faults ?s1 = []" using Update.prems(1) by simp
  from Update.IH[OF this rest] Update.prems(3) show ?case by simp
qed

lemma apply_unit_healthy:
  assumes "faults s = []" "apply_unit E dd v s = (r, s')"
    and ho: "\<And>tmpdir progress. hands_off (Up v tmpdir progress)"
  shows "faults s' = [] \<and> (r = None \<longrightarrow> disk s' dbutils_Migrations (Name v) \<noteq> None
           \<and> tx s' dbutils_Migrations (Name v) \<noteq> None)"
proof -
  let ?p = "tx s dbutils_Migrations (''_progress_'' @ Name v)"
  let ?s1 = "s\<lparr>log := log s @ [UpCalled (Name v) ?p]\<rparr>"
  obtain r0 c2 s2 where run: "run_up E (Name v)
      (Up v (path_Join E [dd, ''migrations'', Name v]) ?p) (False, ?s1) = (r0, c2, s2)"
    by (metis prod_cases3)
  from run_up_log[OF run] obtain hs where
    hs: "log s2 = log ?s1 @ hs"
      "c2 = (\<exists>key x. HandlerCalled (Name v) key True x \<in> set hs)"
    by auto
  have "faults ?s1 = []" using assms(1) by simp
  note h = run_up_healthy[OF this run hs(1)]
  from assms run have s': "s' = s2\<lparr>log := log s2 @ [UpReturned (Name v) r0]\<rparr>"
    and r: "r = None \<longrightarrow> c2"
    by (auto simp: apply_unit_def tx_GetOne_healthy Let_def split: option.splits if_splits)
  have "r = None \<longrightarrow> disk s2 dbutils_Migrations (Name v) \<noteq> None
           \<and> tx s2 dbutils_Migrations (Name v) \<noteq> None"
  proof
    assume "r = None"
    with r hs(2) obtain key x where ev: "HandlerCalled (Name v) key True x \<in> set hs" by blast
    with h have "x = None" by blast
    with ev have "HandlerCalled (Name v) key True None \<in> set hs" by simp
    from run_up_completed[OF run hs(1) this ho]
    show "disk s2 dbutils_Migrations (Name v) \<noteq> None \<and> tx s2 dbutils_Migrations (Name v) \<noteq> None" .
  qed
  with h s' show ?thesis by simp
qed

lemma not_prefix_progress: "\<not> prefix ''_progress_'' k \<Longrightarrow> ''_progress_'' @ n \<noteq> k"
  by auto

lemma apply_loop_healthy:
  assumes "faults s = []" "apply_loop E dd applied ms s = (None, s')"
    and "\<And>v tmpdir progress. v \<in> set ms \<Longrightarrow> applied (Name v) = None
           \<Longrightarrow> hands_off (Up v tmpdir progress)"
  shows "faults s' = [] \<and> (\<forall>v \<in> set ms. applied (Name v) = None \<and> \<not> prefix ''_progress_'' (Name v)
           \<longrightarrow> disk s' dbutils_Migrations (Name v) \<noteq> None
             \<and> tx s' dbutils_Migrations (Name v) \<noteq> None)"
  using assms
proof (induction ms arbitrary: s)
  case Nil
  then show ?case by simp
next
  case (Cons v vs)
  have ho: "\<And>w tmpdir progress. w \<in> set vs \<Longrightarrow> applied (Name w) = None
              \<Longrightarrow> hands_off (Up w tmpdir progress)"
    by (rule Cons.prems(3)) simp_all
  show ?case
  proof (cases "applied (Name v)")
    case (Some a)
    with Cons.prems(2) have "apply_loop E dd applied vs s = (None, s')" by simp
    from Cons.IH[OF Cons.prems(1) this ho] Some show ?thesis by simp
  next
    case None
    have hv: "\<And>tmpdir progress. hands_off (Up v tmpdir progress)"
      by (rule Cons.prems(3)) (simp_all add: None)
    obtain r1 s1 where u: "apply_unit E dd v s = (r1, s1)" by fastforce
    with Cons.prems(2) None have r1: "r1 = None"
      and rest: "apply_loop E dd applied vs s1 = (None, s')"
      by (auto split: option.splits)
    from apply_unit_healthy[OF Cons.prems(1) u hv] r1
    have f1: "faults s1 = []"
      and p1: "disk s1 dbutils_Migrations (Name v) \<noteq> None" "tx s1 dbutils_Migrations (Name v) \<noteq> None"
      by simp_all
    note IH = Cons.IH[OF f1 rest ho]
    have "\<not> prefix ''_progress_'' (Name v) \<longrightarrow> disk s' dbutils_Migrations (Name v) \<noteq> None
             \<and> tx s' dbutils_Migrations (Name v) \<noteq> None"
    proof
      assume np: "\<not> prefix ''_progress_'' (Name v)"
      show "disk s' dbutils_Migrations (Name v) \<noteq> None \<and> tx s' dbutils_Migrations (Name v) \<noteq> None"
        by (rule apply_loop_keeps[of E dd applied vs s1 None s'
              "\<lambda>d. d dbutils_Migrations (Name v) \<noteq> None", OF rest p1 ho])
          (use np in auto)
    qed
    with IH show ?thesis by simp
  qed
qed

subsection \<open>The check of the names and the frame of Apply\<close>

lemma unique_names_None:
  "(unique_names seen ms = None)
     = (distinct (map Name ms) \<and> (\<forall>v \<in> set ms. seen (Name v) = None))"
proof (induction ms arbitrary: seen)
  case Nil
  show ?case by simp
next
  case (Cons v vs)
  show ?case
  proof (cases "seen (Name v)")
    case (Some b)
    then show ?thesis by auto
  next
    case None
    have h: "(\<forall>w \<in> set vs. (seen(Name v \<mapsto> True)) (Name w) = None)
        = (Name v \<notin> Name ` set vs \<and> (\<forall>w \<in> set vs. seen (Name w) = None))"
      by (auto simp: image_iff)
    have step: "unique_names seen (v # vs) = unique_names (seen(Name v \<mapsto> True)) vs"
      using None by simp
    show ?thesis
      unfolding step Cons.IH h using None by auto
  qed
qed

lemma count_list_pos: "x \<in> set xs \<Longrightarrow> 0 < count_list xs x"
  by (induction xs) auto

lemma unique_names_Some:
  assumes "unique_names seen ms = Some e"
  shows "\<exists>n. e = Errorf [] ErrMigrationNonUniqueName ('', duplicate: '' @ n)
           \<and> n \<in> Name ` set ms
           \<and> (seen n \<noteq> None \<or> 1 < count_list (map Name ms) n)"
  using assms
proof (induction ms arbitrary: seen)
  case Nil
  then show ?case by simp
next
  case (Cons v vs)
  show ?case
  proof (cases "seen (Name v)")
    case (Some b)
    with Cons.prems show ?thesis by auto
  next
    case None
    with Cons.prems have "unique_names (seen(Name v \<mapsto> True)) vs = Some e" by simp
    from Cons.IH[OF this] obtain n where
      e: "e = Errorf [] ErrMigrationNonUniqueName ('', duplicate: '' @ n)"
      and mem: "n \<in> Name ` set vs"
      and n: "(seen(Name v \<mapsto> True)) n \<noteq> None \<or> 1 < count_list (map Name vs) n"
      by blast
    from mem have pos: "0 < count_list (map Name vs) n"
      by (intro count_list_pos) simp
    show ?thesis
    proof (cases "n = Name v")
      case True
      with pos have "1 < count_list (map Name (v # vs)) n" by simp
      with e mem show ?thesis by auto
    next
      case False
      with n have "seen n \<noteq> None \<or> 1 < count_list (map Name (v # vs)) n" by auto
      with e mem show ?thesis by auto
    qed
  qed
qed

lemma apply_loop_success:
  assumes "apply_loop E dd applied ms s = (None, s')" "log s' = log s @ evs"
  shows "\<forall>v \<in> set ms. applied (Name v) = None \<longrightarrow>
           UpReturned (Name v) None \<in> set evs
           \<and> (\<exists>key x. HandlerCalled (Name v) key True x \<in> set evs)"
  using assms
proof (induction ms arbitrary: s evs)
  case Nil
  then show ?case by simp
next
  case (Cons v vs)
  show ?case
  proof (cases "applied (Name v)")
    case (Some a)
    with Cons.prems(1) have "apply_loop E dd applied vs s = (None, s')" by simp
    from Cons.IH[OF this Cons.prems(2)] Some show ?thesis by simp
  next
    case None
    obtain r1 s1 where u: "apply_unit E dd v s = (r1, s1)" by fastforce
    with Cons.prems(1) None have r1: "r1 = None"
      and rest: "apply_loop E dd applied vs s1 = (None, s')"
      by (auto split: option.splits)
    from apply_unit_log[OF u] r1 obtain p hs r0 where
      l1: "log s1 = log s @ UpCalled (Name v) p # hs @ [UpReturned (Name v) r0]"
      and r0: "None = (case r0 of Some err \<Rightarrow> Some err
                | None \<Rightarrow> if \<exists>key x. HandlerCalled (Name v) key True x \<in> set hs then None
                          else Some (Errorf [] ErrMigrationCommitNotCalled ('': '' @ Name v)))"
      by auto
    from r0 have ok: "r0 = None" "\<exists>key x. HandlerCalled (Name v) key True x \<in> set hs"
      by (auto split: option.splits if_splits)
    from apply_loop_log[OF rest] obtain ev2 where l2: "log s' = log s1 @ ev2" by blast
    with l1 Cons.prems(2)
    have evs: "evs = (UpCalled (Name v) p # hs @ [UpReturned (Name v) r0]) @ ev2" by simp
    from Cons.IH[OF rest l2] evs ok show ?thesis by (auto; blast)
  qed
qed

lemma Apply_run:
  assumes "Apply E m s dd mdbx = (r, s')" "Migrations m \<noteq> []"
  shows "(r \<noteq> None \<and> disk s' = disk s \<and> log s' = log s) \<or>
     (\<exists>s2 r1 s1. distinct (map Name (Migrations m))
        \<and> tx s2 = disk s \<and> disk s2 = disk s \<and> log s2 = log s \<and> (faults s = [] \<longrightarrow> faults s2 = [])
        \<and> apply_loop E dd (applied_walk (disk s dbutils_Migrations) False) (Migrations m) s2 = (r1, s1)
        \<and> log s' = log s1
        \<and> (r1 \<noteq> None \<longrightarrow> r = r1 \<and> disk s' = disk s1)
        \<and> (r1 = None \<longrightarrow>
              r = None \<and> disk s' = (tx s1)(dbutils_DatabaseInfoBucket :=
                    (tx s1 dbutils_DatabaseInfoBucket)(dbutils_DBSchemaVersionKey E \<mapsto> schema_version E mdbx))
            \<or> r \<noteq> None \<and> disk s' = disk s1))"
proof -
  obtain f s0 where f: "fails s = (f, s0)" by fastforce
  note f0 = fails_cases[OF f]
  show ?thesis
  proof (cases f)
    case True
    with assms f f0 show ?thesis by (auto simp: Apply_def AppliedMigrations_def)
  next
    case False
    let ?A = "applied_walk (disk s dbutils_Migrations) False"
    from False f f0 have scan: "AppliedMigrations False s = ((?A, None), s0)"
      by (simp add: AppliedMigrations_def)
    have h0: "faults s = [] \<longrightarrow> faults s0 = []" using f by (auto simp: fails_def)
    show ?thesis
    proof (cases "unique_names Map.empty (Migrations m)")
      case (Some e)
      with assms scan f0 show ?thesis by (auto simp: Apply_def)
    next
      case None
      then have dist: "distinct (map Name (Migrations m))" by (simp add: unique_names_None)
      obtain f2 s02 where f2: "fails s0 = (f2, s02)" by fastforce
      note f02 = fails_cases[OF f2]
      show ?thesis
      proof (cases f2)
        case True
        with assms scan None f2 f0 f02 show ?thesis by (auto simp: Apply_def db_Begin_def)
      next
        case f2F: False
        let ?s2 = "s02\<lparr>tx := disk s02\<rparr>"
        have h2: "faults s = [] \<longrightarrow> faults ?s2 = []" using h0 f2 by (auto simp: fails_def)
        obtain r1 s1 where loop: "apply_loop E dd ?A (Migrations m) ?s2 = (r1, s1)" by fastforce
        obtain rp sp where p: "tx_Put dbutils_DatabaseInfoBucket (dbutils_DBSchemaVersionKey E)
            (schema_version E mdbx) s1 = (rp, sp)" by fastforce
        obtain rc sc where c: "tx_Commit sp = (rc, sc)" by fastforce
        note pc = tx_Put_cases[OF p] and cc = tx_Commit_cases[OF c]
        from assms scan None f2 f2F
        have A: "(r, s') = (case apply_tx E m dd mdbx ?A ?s2 of (r, s3) \<Rightarrow> (r, tx_Rollback s3))"
          by (simp add: Apply_def db_Begin_def)
        have fin: "log s' = log s1 \<and> (r1 \<noteq> None \<longrightarrow> r = r1 \<and> disk s' = disk s1)
          \<and> (r1 = None \<longrightarrow>
              r = None \<and> disk s' = (tx s1)(dbutils_DatabaseInfoBucket :=
                    (tx s1 dbutils_DatabaseInfoBucket)(dbutils_DBSchemaVersionKey E \<mapsto> schema_version E mdbx))
            \<or> r \<noteq> None \<and> disk s' = disk s1)"
          using A loop p c pc cc
          by (auto simp: apply_tx_def tx_Rollback_def split: option.splits)
        have "tx ?s2 = disk s \<and> disk ?s2 = disk s \<and> log ?s2 = log s"
          using f0 f02 by simp
        with dist h2 loop fin show ?thesis by blast
      qed
    qed
  qed
qed

subsection \<open>Duplicate names, the schema version\<close>

lemma applied_walk_put:
  "applied_walk (t(k \<mapsto> x)) wp n =
     (if n = k then (if prefix ''_progress_'' k then None else Some (if wp then x else []))
      else applied_walk t wp n)"
  by (simp add: applied_walk_def)

lemma applied_walk_del:
  "applied_walk (t(k := None)) wp n = (if n = k then None else applied_walk t wp n)"
  by (simp add: applied_walk_def)

lemma applied_walk_prefix: "applied_walk t wp (''_progress_'' @ n) = None"
  by (simp add: applied_walk_def split: option.splits)

lemma applied_walk_None_payload:
  "(applied_walk t wp n = None) = (applied_walk t False n = None)"
  by (simp add: applied_walk_def split: option.splits)

lemma applied_set_eq: "applied_set wp s = applied_walk (disk s dbutils_Migrations) wp"
  by (simp add: AppliedMigrations_def fails_def)

lemma length_PutUint32: "length (PutUint32 v) = 4"
  by (simp add: PutUint32_def length_be_bytes)

lemma be_nat_PutUint32: "be_nat (PutUint32 v) = unat v"
proof -
  have "unat v < 2 ^ 32" using unsigned_less[of v] by simp
  then show ?thesis by (simp add: PutUint32_def be_nat_be_bytes)
qed

text \<open>
  Claim C4. When two registered units share a name, \<^verbatim>\<open>Apply\<close> returns an error,
  calls no unit body and leaves what is committed as it was, whatever the bodies are. On a
  working store the error wraps \<^verbatim>\<open>ErrMigrationNonUniqueName\<close> and names a name that
  is registered more than once, and the store is untouched.
\<close>

theorem Apply_non_unique_name:
  assumes "\<not> distinct (map Name (Migrations m))" "Apply E m s datadir mdbx = (r, s')"
  shows "r \<noteq> None \<and> disk s' = disk s \<and> log s' = log s
     \<and> (faults s = [] \<longrightarrow> s' = s \<and> (\<exists>n. 1 < count_list (map Name (Migrations m)) n
           \<and> r = Some (Errorf [] ErrMigrationNonUniqueName ('', duplicate: '' @ n))
           \<and> errors_Is (the r) ErrMigrationNonUniqueName))"
proof -
  from assms(1) have ne: "Migrations m \<noteq> []" by auto
  from Apply_run[OF assms(2) ne] assms(1)
  have early: "r \<noteq> None \<and> disk s' = disk s \<and> log s' = log s" by blast
  have "s' = s \<and> (\<exists>n. 1 < count_list (map Name (Migrations m)) n
           \<and> r = Some (Errorf [] ErrMigrationNonUniqueName ('', duplicate: '' @ n))
           \<and> errors_Is (the r) ErrMigrationNonUniqueName)" if h: "faults s = []"
  proof -
    from assms(1) obtain e where e: "unique_names Map.empty (Migrations m) = Some e"
      using unique_names_None[of Map.empty "Migrations m"] by auto
    from unique_names_Some[OF e] obtain n where
      n: "e = Errorf [] ErrMigrationNonUniqueName ('', duplicate: '' @ n)"
        "1 < count_list (map Name (Migrations m)) n"
      by auto
    from assms(2) ne e h have "r = Some e" "s' = s"
      by (simp_all add: Apply_def AppliedMigrations_def fails_healthy)
    with n show ?thesis by auto
  qed
  with early show ?thesis by blast
qed

theorem Apply_non_unique_name_witness:
  "\<not> distinct (map Name (Migrations
        \<lparr>Migrations = [completes ''repeated_name'', completes ''repeated_name'']\<rparr>))
   \<and> Apply test_env \<lparr>Migrations = [completes ''repeated_name'', completes ''repeated_name'']\<rparr>
        NewTestDB [] False
      = (Some (Errorf [] ErrMigrationNonUniqueName '', duplicate: repeated_name''), NewTestDB)
   \<and> faults NewTestDB = []
   \<and> errors_Is (Errorf [] ErrMigrationNonUniqueName '', duplicate: repeated_name'')
        ErrMigrationNonUniqueName"
proof -
  let ?m = "\<lparr>Migrations = [completes ''repeated_name'', completes ''repeated_name'']\<rparr>"
  have d: "\<not> distinct (map Name (Migrations ?m))" by (simp add: completes_def)
  have a: "Apply test_env ?m NewTestDB [] False
      = (Some (Errorf [] ErrMigrationNonUniqueName '', duplicate: repeated_name''), NewTestDB)"
    by (simp add: engine store_ops fixtures)
  from Apply_non_unique_name[OF d a] d a show ?thesis
    by (simp add: NewTestDB_def)
qed

text \<open>
  Claim C7 says that every successful \<^verbatim>\<open>Apply\<close> writes the schema version, also
  when no unit is registered. With an empty list \<^verbatim>\<open>Apply\<close> returns nil at its first
  statement and the store has no schema version afterwards.
\<close>

theorem Apply_empty_list_writes_nothing:
  "fst (Apply test_env \<lparr>Migrations = []\<rparr> NewTestDB [] False) = None
   \<and> disk (snd (Apply test_env \<lparr>Migrations = []\<rparr> NewTestDB [] False))
        dbutils_DatabaseInfoBucket (dbutils_DBSchemaVersionKey test_env) = None"
  by (simp add: Apply_def NewTestDB_def)

text \<open>
  Claim C7, amended. Every successful \<^verbatim>\<open>Apply\<close> of a list that is not empty has
  committed the schema version under the fixed key: twelve bytes, the big-endian 4-byte
  major, minor and patch of the triple that the flag selects. Every unit that was not
  applied before has by then returned nil after a completion call.
\<close>

theorem Apply_writes_schema_version:
  assumes "Migrations m \<noteq> []" "Apply E m s datadir mdbx = (None, s')" "log s' = log s @ evs"
    and "V = (if mdbx then dbutils_DBSchemaVersionMDBX E else dbutils_DBSchemaVersionLMDB E)"
  shows "disk s' dbutils_DatabaseInfoBucket (dbutils_DBSchemaVersionKey E)
           = Some (schema_version E mdbx)
     \<and> length (schema_version E mdbx) = 12
     \<and> be_nat (take 4 (schema_version E mdbx)) = unat (Major V)
     \<and> be_nat (take 4 (drop 4 (schema_version E mdbx))) = unat (Minor V)
     \<and> be_nat (drop 8 (schema_version E mdbx)) = unat (Patch V)
     \<and> (\<forall>v \<in> set (Migrations m). applied_set False s (Name v) = None \<longrightarrow>
           UpReturned (Name v) None \<in> set evs
           \<and> (\<exists>key x. HandlerCalled (Name v) key True x \<in> set evs))"
proof -
  from Apply_run[OF assms(2,1)] obtain s2 s1 where
    l2: "log s2 = log s"
    and loop: "apply_loop E datadir (applied_walk (disk s dbutils_Migrations) False)
        (Migrations m) s2 = (None, s1)"
    and l1: "log s' = log s1"
    and d: "disk s' = (tx s1)(dbutils_DatabaseInfoBucket :=
        (tx s1 dbutils_DatabaseInfoBucket)(dbutils_DBSchemaVersionKey E \<mapsto> schema_version E mdbx))"
    by auto
  from l1 l2 assms(3) have "log s1 = log s2 @ evs" by simp
  note units = apply_loop_success[OF loop this]
  have len: "length (schema_version E mdbx) = 12"
    by (simp add: schema_version_def length_PutUint32)
  have dec: "be_nat (take 4 (schema_version E mdbx)) = unat (Major V)"
    "be_nat (take 4 (drop 4 (schema_version E mdbx))) = unat (Minor V)"
    "be_nat (drop 8 (schema_version E mdbx)) = unat (Patch V)"
    using assms(4) by (simp_all add: schema_version_def length_PutUint32 be_nat_PutUint32)
  from d len dec units show ?thesis by (simp add: applied_set_eq)
qed

theorem Apply_writes_schema_version_witness:
  "Migrations \<lparr>Migrations = [completes ''one'', completes ''two'']\<rparr> \<noteq> []
   \<and> fst (Apply test_env \<lparr>Migrations = [completes ''one'', completes ''two'']\<rparr>
            NewTestDB [] False) = None
   \<and> disk (snd (Apply test_env \<lparr>Migrations = [completes ''one'', completes ''two'']\<rparr>
            NewTestDB [] False))
        dbutils_DatabaseInfoBucket (dbutils_DBSchemaVersionKey test_env)
      = Some (schema_version test_env False)
   \<and> be_nat (take 4 (schema_version test_env False))
      = unat (Major (dbutils_DBSchemaVersionLMDB test_env))
   \<and> applied_set False NewTestDB (Name (completes ''two'')) = None
   \<and> UpReturned (Name (completes ''two'')) None
        \<in> set (log (snd (Apply test_env \<lparr>Migrations = [completes ''one'', completes ''two'']\<rparr>
            NewTestDB [] False)))"
proof -
  let ?m = "\<lparr>Migrations = [completes ''one'', completes ''two'']\<rparr>"
  let ?s' = "snd (Apply test_env ?m NewTestDB [] False)"
  have ne: "Migrations ?m \<noteq> []" by simp
  have f: "fst (Apply test_env ?m NewTestDB [] False) = None"
    by (simp add: engine store_ops fixtures)
  then have a: "Apply test_env ?m NewTestDB [] False = (None, ?s')"
    by (metis prod.collapse)
  have l: "log ?s' = log NewTestDB @ log ?s'" by (simp add: NewTestDB_def)
  have p: "applied_set False NewTestDB (Name (completes ''two'')) = None"
    by (simp add: engine store_ops fixtures)
  note T = Apply_writes_schema_version[OF ne a l refl]
  from T have t1: "disk ?s' dbutils_DatabaseInfoBucket (dbutils_DBSchemaVersionKey test_env)
      = Some (schema_version test_env False)" by blast
  from T have t3: "be_nat (take 4 (schema_version test_env False))
      = unat (Major (dbutils_DBSchemaVersionLMDB test_env))" by simp
  from T have "\<forall>v \<in> set (Migrations ?m). applied_set False NewTestDB (Name v) = None \<longrightarrow>
           UpReturned (Name v) None \<in> set (log ?s')" by blast
  with p have t6: "UpReturned (Name (completes ''two'')) None \<in> set (log ?s')" by simp
  from ne f t1 t3 p t6 show ?thesis by blast
qed

subsection \<open>The check of the completion call\<close>

text \<open>
  Claim C5 says that a body which returns nil after a last handler call that is not a
  completion call makes \<^verbatim>\<open>Apply\<close> fail with \<^verbatim>\<open>CommitNotCalled\<close>. The body
  below calls the handler in completion mode, then in checkpoint mode, and returns nil:
  \<^verbatim>\<open>Apply\<close> returns nil and the unit is recorded as applied.
\<close>

theorem Apply_accepts_checkpoint_after_completion:
  "fst (Apply test_env \<lparr>Migrations = [completes_then_checkpoints ''one'']\<rparr> NewTestDB [] False)
     = None
   \<and> applied_set False
        (snd (Apply test_env \<lparr>Migrations = [completes_then_checkpoints ''one'']\<rparr>
                NewTestDB [] False)) ''one'' \<noteq> None"
  by (simp add: engine store_ops fixtures)

text \<open>
  Claim C5, amended. The flag \<^verbatim>\<open>commitFuncCalled\<close> is set by every completion call
  and never cleared. So for a body that returns nil, the round of the loop fails with
  \<^verbatim>\<open>CommitNotCalled\<close> exactly when no handler call of the run was a completion
  call, and goes on to the next unit exactly when some call was, wherever among the calls
  it came.
\<close>

theorem apply_unit_commit_check:
  assumes "apply_unit E datadir v s = (r, s')" "log s' = log s @ evs"
    and "UpReturned (Name v) None \<in> set evs"
  shows "(r = Some (Errorf [] ErrMigrationCommitNotCalled ('': '' @ Name v)))
           = (\<forall>key x. HandlerCalled (Name v) key True x \<notin> set evs)
     \<and> (r = None) = (\<exists>key x. HandlerCalled (Name v) key True x \<in> set evs)"
proof -
  from apply_unit_log[OF assms(1)] assms(2) have
    "evs = [] \<and> r = Some ErrStore \<or>
      (\<exists>p hs r0. evs = UpCalled (Name v) p # hs @ [UpReturned (Name v) r0]
         \<and> (\<forall>e \<in> set hs. \<exists>key d x. e = HandlerCalled (Name v) key d x)
         \<and> r = (case r0 of
                  Some err \<Rightarrow> Some err
                | None \<Rightarrow> if \<exists>key x. HandlerCalled (Name v) key True x \<in> set hs then None
                          else Some (Errorf [] ErrMigrationCommitNotCalled ('': '' @ Name v))))"
    by auto
  with assms(3) obtain p hs r0 where
    evs: "evs = UpCalled (Name v) p # hs @ [UpReturned (Name v) r0]"
    and hs: "\<forall>e \<in> set hs. \<exists>key d x. e = HandlerCalled (Name v) key d x"
    and r: "r = (case r0 of
                  Some err \<Rightarrow> Some err
                | None \<Rightarrow> if \<exists>key x. HandlerCalled (Name v) key True x \<in> set hs then None
                          else Some (Errorf [] ErrMigrationCommitNotCalled ('': '' @ Name v)))"
    by auto
  from evs hs assms(3) have r0: "r0 = None" by auto
  have "(\<exists>key x. HandlerCalled (Name v) key True x \<in> set evs)
      = (\<exists>key x. HandlerCalled (Name v) key True x \<in> set hs)"
    using evs by auto
  with r r0 show ?thesis by auto
qed

theorem apply_unit_commit_check_witness:
  "apply_unit test_env [] (completes_then_checkpoints ''one'') NewTestDB
     = (None, snd (apply_unit test_env [] (completes_then_checkpoints ''one'') NewTestDB))
   \<and> UpReturned (Name (completes_then_checkpoints ''one'')) None
       \<in> set (log (snd (apply_unit test_env [] (completes_then_checkpoints ''one'') NewTestDB)))
   \<and> HandlerCalled (Name (completes_then_checkpoints ''one'')) None True None
       \<in> set (log (snd (apply_unit test_env [] (completes_then_checkpoints ''one'') NewTestDB)))
   \<and> last (butlast (log (snd (apply_unit test_env [] (completes_then_checkpoints ''one'') NewTestDB))))
       = HandlerCalled ''one'' (Some ''k'') False None"
proof -
  let ?v = "completes_then_checkpoints ''one''"
  let ?s' = "snd (apply_unit test_env [] ?v NewTestDB)"
  have lg: "log ?s' = [UpCalled ''one'' None, HandlerCalled ''one'' None True None,
      HandlerCalled ''one'' (Some ''k'') False None, UpReturned ''one'' None]"
    by (simp add: engine store_ops fixtures)
  have f: "fst (apply_unit test_env [] ?v NewTestDB) = None"
    by (simp add: engine store_ops fixtures)
  then have a: "apply_unit test_env [] ?v NewTestDB = (None, ?s')"
    by (metis prod.collapse)
  have l: "log ?s' = log NewTestDB @ log ?s'" by (simp add: NewTestDB_def)
  have n: "Name ?v = ''one''" by (simp add: completes_then_checkpoints_def)
  have u: "UpReturned (Name ?v) None \<in> set (log ?s')" unfolding lg n by simp
  have h: "HandlerCalled (Name ?v) None True None \<in> set (log ?s')" unfolding lg n by simp
  have b: "last (butlast (log ?s')) = HandlerCalled ''one'' (Some ''k'') False None"
    unfolding lg by simp
  from apply_unit_commit_check[OF a l u] a u h b show ?thesis by blast
qed

text \<open>
  Claim C1 says that no applied record is written for a unit whose body returns nil
  without a completion call. The body below puts a record under its own name through the
  transaction it is given, commits it by a checkpoint call and returns nil:
  \<^verbatim>\<open>Apply\<close> returns \<^verbatim>\<open>CommitNotCalled\<close>, and the record is committed and
  listed by the scan.
\<close>

theorem Apply_commit_not_called_own_record:
  "log (snd (Apply test_env \<lparr>Migrations = [writes_own_record ''one'']\<rparr> NewTestDB [] False))
     = [UpCalled ''one'' None, HandlerCalled ''one'' None False None, UpReturned ''one'' None]
   \<and> fst (Apply test_env \<lparr>Migrations = [writes_own_record ''one'']\<rparr> NewTestDB [] False)
     = Some (Errorf [] ErrMigrationCommitNotCalled '': one'')
   \<and> disk (snd (Apply test_env \<lparr>Migrations = [writes_own_record ''one'']\<rparr> NewTestDB [] False))
        dbutils_Migrations ''one'' = Some [CHR 0x01]
   \<and> applied_set False
        (snd (Apply test_env \<lparr>Migrations = [writes_own_record ''one'']\<rparr> NewTestDB [] False))
        ''one'' \<noteq> None"
  by (simp add: engine store_ops fixtures)

text \<open>
  Claim C1, amended. In a run of \<^verbatim>\<open>Apply\<close> in which the body of the unit \<open>n\<close>
  returned nil and the handler was never called for \<open>n\<close> in completion mode,
  \<^verbatim>\<open>Apply\<close> returns the error that wraps \<^verbatim>\<open>ErrMigrationCommitNotCalled\<close> and
  names \<open>n\<close>. When no body of a registered unit writes the bucket
  \<^verbatim>\<open>dbutils.Migrations\<close> by itself, what is committed afterwards holds no applied
  record for \<open>n\<close>: a scan does not list \<open>n\<close>, and a name without the checkpoint
  prefix has no entry in the bucket at all. A run gets as far as a unit body only when the
  names are unique.
\<close>

theorem Apply_commit_not_called:
  assumes "log s = []" "Apply E m s datadir mdbx = (r, s')"
    and "UpReturned n None \<in> set (log s')"
    and "\<forall>key x. HandlerCalled n key True x \<notin> set (log s')"
  shows "r = Some (Errorf [] ErrMigrationCommitNotCalled ('': '' @ n))
     \<and> errors_Is (the r) ErrMigrationCommitNotCalled
     \<and> distinct (map Name (Migrations m))
     \<and> (hands_off_units (Migrations m) \<longrightarrow>
           applied_set withPayload s' n = None
           \<and> (\<not> prefix ''_progress_'' n \<longrightarrow> disk s' dbutils_Migrations n = None))"
proof -
  have ne: "Migrations m \<noteq> []"
  proof
    assume "Migrations m = []"
    with assms(2) have "s' = s" by (simp add: Apply_def)
    with assms(1,3) show False by simp
  qed
  let ?A = "applied_walk (disk s dbutils_Migrations) False"
  from Apply_run[OF assms(2) ne] assms(1,3) obtain s2 r1 s1 where
    dist: "distinct (map Name (Migrations m))"
    and s2: "tx s2 = disk s" "disk s2 = disk s" "log s2 = log s"
    and loop: "apply_loop E datadir ?A (Migrations m) s2 = (r1, s1)"
    and l1: "log s' = log s1"
    and r1: "r1 \<noteq> None \<longrightarrow> r = r1 \<and> disk s' = disk s1"
    by auto
  have lg: "log s1 = log s2 @ log s'" using l1 s2(3) assms(1) by simp
  from apply_loop_returned_nil[OF loop lg assms(3,4)]
  have r1': "r1 = Some (Errorf [] ErrMigrationCommitNotCalled ('': '' @ n))" .
  with r1 have r: "r = Some (Errorf [] ErrMigrationCommitNotCalled ('': '' @ n))"
    and d: "disk s' = disk s1" by simp_all
  from apply_loop_log[OF loop] lg assms(3)
  obtain v where v: "v \<in> set (Migrations m)" "?A (Name v) = None" "n = Name v"
    by fastforce
  have rec: "applied_set withPayload s' n = None
      \<and> (\<not> prefix ''_progress_'' n \<longrightarrow> disk s' dbutils_Migrations n = None)"
    if H: "hands_off_units (Migrations m)"
  proof -
    let ?P = "\<lambda>d. applied_walk (d dbutils_Migrations) withPayload n = None"
    have P0: "?P (disk s2)" "?P (tx s2)"
      using v(2,3) s2 applied_walk_None_payload[of "disk s dbutils_Migrations" withPayload n]
      by simp_all
    have "?P (disk s1) \<and> ?P (tx s1)"
    proof (rule apply_loop_keeps[of E datadir ?A "Migrations m" s2 r1 s1 ?P, OF loop P0])
      show "\<And>v tmpdir progress. v \<in> set (Migrations m) \<Longrightarrow> hands_off (Up v tmpdir progress)"
        using H by (simp add: hands_off_units_def)
      show "\<And>v d k. ?P d \<Longrightarrow> ?P (put (''_progress_'' @ Name v) k d)"
        by (simp add: applied_walk_put)
      show "\<And>v d. ?P d \<Longrightarrow> ?P (del (''_progress_'' @ Name v) d)"
        by (simp add: applied_walk_del)
      show "\<And>d d'. d' dbutils_Migrations = d dbutils_Migrations \<Longrightarrow> ?P d \<Longrightarrow> ?P d'"
        by simp
      show "\<And>v d x key y. HandlerCalled (Name v) key True y \<in> set (log s1) \<Longrightarrow> ?P d
          \<Longrightarrow> ?P (put (Name v) x d)"
        using assms(4) l1 by (auto simp: applied_walk_put)
    qed
    with d have a: "applied_walk (disk s' dbutils_Migrations) withPayload n = None" by simp
    then have raw: "\<not> prefix ''_progress_'' n \<longrightarrow> disk s' dbutils_Migrations n = None"
      by (auto simp: applied_walk_def split: option.splits if_splits)
    from a raw show ?thesis by (simp add: applied_set_eq)
  qed
  from r dist rec show ?thesis by simp
qed

theorem Apply_commit_not_called_witness:
  "log NewTestDB = []
   \<and> UpReturned ''one'' None
       \<in> set (log (snd (Apply test_env \<lparr>Migrations = [returns_nil ''one'']\<rparr> NewTestDB [] False)))
   \<and> (\<forall>key x. HandlerCalled ''one'' key True x
       \<notin> set (log (snd (Apply test_env \<lparr>Migrations = [returns_nil ''one'']\<rparr> NewTestDB [] False))))
   \<and> fst (Apply test_env \<lparr>Migrations = [returns_nil ''one'']\<rparr> NewTestDB [] False)
       = Some (Errorf [] ErrMigrationCommitNotCalled '': one'')
   \<and> disk (snd (Apply test_env \<lparr>Migrations = [returns_nil ''one'']\<rparr> NewTestDB [] False))
        dbutils_Migrations ''one'' = None"
proof -
  let ?m = "\<lparr>Migrations = [returns_nil ''one'']\<rparr>"
  let ?s' = "snd (Apply test_env ?m NewTestDB [] False)"
  have l0: "log NewTestDB = []" by (simp add: NewTestDB_def)
  have lg: "log ?s' = [UpCalled ''one'' None, UpReturned ''one'' None]"
    by (simp add: engine store_ops fixtures)
  have a: "Apply test_env ?m NewTestDB [] False = (fst (Apply test_env ?m NewTestDB [] False), ?s')"
    by simp
  have u: "UpReturned ''one'' None \<in> set (log ?s')" unfolding lg by simp
  have h: "\<forall>key x. HandlerCalled ''one'' key True x \<notin> set (log ?s')" unfolding lg by simp
  have ho: "hands_off_units (Migrations ?m)"
    by (simp add: hands_off_units_def returns_nil_def)
  from Apply_commit_not_called[OF l0 a u h, of True] ho l0 u h show ?thesis by simp
qed

subsection \<open>An error after the completion call\<close>

lemma apply_unit_completed:
  assumes "apply_unit E dd v s = (r, s')" "log s' = log s @ evs"
    and "HandlerCalled (Name v) key True None \<in> set evs"
    and ho: "\<And>tmpdir progress. hands_off (Up v tmpdir progress)"
  shows "disk s' dbutils_Migrations (Name v) \<noteq> None \<and> tx s' dbutils_Migrations (Name v) \<noteq> None"
proof -
  obtain g s1 where g: "tx_GetOne dbutils_Migrations (''_progress_'' @ Name v) s = (g, s1)"
    by fastforce
  note g1 = tx_GetOne_cases[OF g]
  show ?thesis
  proof (cases g)
    case (Inl err)
    with assms(1) g have "s' = s1" by (auto simp: apply_unit_def)
    with g1 assms(2,3) show ?thesis by simp
  next
    case (Inr p)
    let ?s1 = "s1\<lparr>log := log s1 @ [UpCalled (Name v) p]\<rparr>"
    obtain r0 c2 s2 where run: "run_up E (Name v)
        (Up v (path_Join E [dd, ''migrations'', Name v]) p) (False, ?s1) = (r0, c2, s2)"
      by (metis prod_cases3)
    from run_up_log[OF run] obtain hs where hs: "log s2 = log ?s1 @ hs" by blast
    from assms(1) g Inr run have s': "s' = s2\<lparr>log := log s2 @ [UpReturned (Name v) r0]\<rparr>"
      by (auto simp: apply_unit_def Let_def split: option.splits if_splits)
    with hs g1 assms(2) have "evs = UpCalled (Name v) p # hs @ [UpReturned (Name v) r0]"
      by simp
    with assms(3) have "HandlerCalled (Name v) key True None \<in> set hs" by auto
    from run_up_completed[OF run hs this ho] s' show ?thesis by simp
  qed
qed

lemma apply_loop_returned_error:
  assumes "apply_loop E dd applied ms s = (r, s')" "log s' = log s @ evs"
    and "UpReturned n (Some e) \<in> set evs" "distinct (map Name ms)"
  shows "r = Some e \<and> (hands_off_units ms \<longrightarrow> HandlerCalled n key True None \<in> set evs \<longrightarrow>
           disk s' dbutils_Migrations n \<noteq> None \<and> tx s' dbutils_Migrations n \<noteq> None)"
  using assms
proof (induction ms arbitrary: s evs)
  case Nil
  then show ?case by simp
next
  case (Cons v vs)
  from Cons.prems(4) have dvs: "distinct (map Name vs)" and nv: "Name v \<notin> Name ` set vs"
    by simp_all
  have hvs: "hands_off_units (v # vs) \<Longrightarrow> hands_off_units vs"
    and hv: "hands_off_units (v # vs) \<Longrightarrow> hands_off (Up v tmpdir progress)" for tmpdir progress
    by (simp_all add: hands_off_units_def)
  show ?case
  proof (cases "applied (Name v)")
    case (Some a)
    with Cons.prems(1) have "apply_loop E dd applied vs s = (r, s')" by simp
    from Cons.IH[OF this Cons.prems(2,3) dvs] hvs show ?thesis by blast
  next
    case None
    obtain r1 s1 where u: "apply_unit E dd v s = (r1, s1)" by fastforce
    from apply_unit_log[OF u] obtain ev1 where
      l1: "log s1 = log s @ ev1"
      and st: "ev1 = [] \<and> r1 = Some ErrStore \<or>
        (\<exists>p hs r0. ev1 = UpCalled (Name v) p # hs @ [UpReturned (Name v) r0]
           \<and> (\<forall>e \<in> set hs. \<exists>key d x. e = HandlerCalled (Name v) key d x)
           \<and> r1 = (case r0 of Some err \<Rightarrow> Some err
                | None \<Rightarrow> if \<exists>key x. HandlerCalled (Name v) key True x \<in> set hs then None
                          else Some (Errorf [] ErrMigrationCommitNotCalled ('': '' @ Name v))))"
      by blast
    from st have names: "\<forall>e \<in> set ev1. event_name e = Name v" by fastforce
    show ?thesis
    proof (cases r1)
      case (Some err)
      with Cons.prems(1) None u have rs: "r = r1" "s' = s1" by simp_all
      with l1 Cons.prems(2) have evs: "evs = ev1" by simp
      with names Cons.prems(3) have n: "n = Name v" by fastforce
      from st evs Cons.prems(3) rs(1) have "r = Some e"
        by (auto split: option.splits if_splits)
      moreover have "HandlerCalled n key True None \<in> set evs \<longrightarrow>
           disk s' dbutils_Migrations n \<noteq> None \<and> tx s' dbutils_Migrations n \<noteq> None"
        if "hands_off_units (v # vs)"
        using apply_unit_completed[OF u l1, of key] hv[OF that] evs n rs(2) by simp
      ultimately show ?thesis by simp
    next
      case r1: None
      with Cons.prems(1) None u have rest: "apply_loop E dd applied vs s1 = (r, s')" by simp
      from apply_loop_log[OF rest] obtain ev2 where l2: "log s' = log s1 @ ev2"
        and n2: "\<forall>e \<in> set ev2. \<exists>v \<in> set vs. applied (Name v) = None \<and> event_name e = Name v"
        by blast
      with l1 Cons.prems(2) have evs: "evs = ev1 @ ev2" by simp
      from st r1 have "UpReturned n (Some e) \<notin> set ev1"
        by (auto split: option.splits if_splits)
      with Cons.prems(3) evs have in2: "UpReturned n (Some e) \<in> set ev2" by simp
      with n2 have "n \<in> Name ` set vs" by fastforce
      with nv have "n \<noteq> Name v" by blast
      with names have "HandlerCalled n key True None \<notin> set ev1" by fastforce
      with evs have "HandlerCalled n key True None \<in> set evs
          \<longrightarrow> HandlerCalled n key True None \<in> set ev2" by simp
      with Cons.IH[OF rest l2 in2 dvs] hvs show ?thesis by blast
    qed
  qed
qed

lemma apply_loop_all_applied:
  "\<forall>v \<in> set ms. applied (Name v) \<noteq> None \<Longrightarrow> apply_loop E dd applied ms s = (None, s)"
  by (induction ms) auto

text \<open>
  Claim C10 says that a unit whose body signals completion, which succeeds, and then returns
  an error has its record committed and is skipped by the next \<^verbatim>\<open>Apply\<close>. The first
  unit below has a name with the checkpoint prefix: the first \<^verbatim>\<open>Apply\<close> returns
  the body's error and the record is committed, and the next \<^verbatim>\<open>Apply\<close> calls the
  body again. The second unit deletes its own record through the transaction after the
  completion call and commits that by a checkpoint call before it returns the error: no
  record is left, and the next \<^verbatim>\<open>Apply\<close> calls the body again.
\<close>

theorem Apply_reruns_prefixed_unit:
  "fst (Apply test_env \<lparr>Migrations = [completes_then_fails ''_progress_x'']\<rparr> NewTestDB [] False)
     = Some (ErrUnit ''late'')
   \<and> disk (snd (Apply test_env \<lparr>Migrations = [completes_then_fails ''_progress_x'']\<rparr>
                  NewTestDB [] False)) dbutils_Migrations ''_progress_x'' \<noteq> None
   \<and> invoked (log (snd (Apply test_env \<lparr>Migrations = [completes_then_fails ''_progress_x'']\<rparr>
        ((snd (Apply test_env \<lparr>Migrations = [completes_then_fails ''_progress_x'']\<rparr>
                  NewTestDB [] False))\<lparr>log := []\<rparr>) [] False)))
     = [''_progress_x'']
   \<and> log (snd (Apply test_env \<lparr>Migrations = [completes_deletes_fails ''one'']\<rparr>
                  NewTestDB [] False))
     = [UpCalled ''one'' None, HandlerCalled ''one'' None True None,
        HandlerCalled ''one'' None False None, UpReturned ''one'' (Some (ErrUnit ''late''))]
   \<and> fst (Apply test_env \<lparr>Migrations = [completes_deletes_fails ''one'']\<rparr> NewTestDB [] False)
     = Some (ErrUnit ''late'')
   \<and> disk (snd (Apply test_env \<lparr>Migrations = [completes_deletes_fails ''one'']\<rparr>
                  NewTestDB [] False)) dbutils_Migrations ''one'' = None
   \<and> invoked (log (snd (Apply test_env \<lparr>Migrations = [completes_deletes_fails ''one'']\<rparr>
        ((snd (Apply test_env \<lparr>Migrations = [completes_deletes_fails ''one'']\<rparr>
                  NewTestDB [] False))\<lparr>log := []\<rparr>) [] False)))
     = [''one'']"
  by (simp add: engine store_ops fixtures)

text \<open>
  Claim C10, amended. In a run of \<^verbatim>\<open>Apply\<close> in which a completion call for the
  unit \<open>n\<close> succeeded and the body of \<open>n\<close> then returned an error, \<^verbatim>\<open>Apply\<close>
  returns that error. When no body of a registered unit writes the bucket
  \<^verbatim>\<open>dbutils.Migrations\<close> by itself, the record of \<open>n\<close> is committed all the same;
  and when moreover the name does not begin with the checkpoint prefix, a scan lists \<open>n\<close>
  as applied and the next \<^verbatim>\<open>Apply\<close> on what is committed does not call its body.
\<close>

theorem Apply_error_after_completion:
  assumes "log s = []" "Apply E m s datadir mdbx = (r, s')"
    and "HandlerCalled n key True None \<in> set (log s')"
    and "UpReturned n (Some e) \<in> set (log s')"
    and "disk s2 = disk s'" "log s2 = []" "Apply E m s2 datadir2 mdbx2 = (r2, s3)"
  shows "r = Some e
     \<and> (hands_off_units (Migrations m) \<longrightarrow>
          disk s' dbutils_Migrations n \<noteq> None
          \<and> (\<not> prefix ''_progress_'' n \<longrightarrow>
                applied_set withPayload s' n \<noteq> None \<and> n \<notin> set (invoked (log s3))))"
proof -
  have ne: "Migrations m \<noteq> []"
  proof
    assume "Migrations m = []"
    with assms(2) have "s' = s" by (simp add: Apply_def)
    with assms(1,3) show False by simp
  qed
  from Apply_run[OF assms(2) ne] assms(1,3) obtain sa r1 s1 where
    dist: "distinct (map Name (Migrations m))"
    and sa: "log sa = log s"
    and loop: "apply_loop E datadir (applied_walk (disk s dbutils_Migrations) False)
        (Migrations m) sa = (r1, s1)"
    and l1: "log s' = log s1"
    and r1: "r1 \<noteq> None \<longrightarrow> r = r1 \<and> disk s' = disk s1"
    by auto
  have lg: "log s1 = log sa @ log s'" using l1 sa assms(1) by simp
  note L = apply_loop_returned_error[OF loop lg assms(4) dist, of key]
  from L have "r1 = Some e" by simp
  with r1 have r: "r = Some e" and d: "disk s' = disk s1" by simp_all
  have "disk s' dbutils_Migrations n \<noteq> None
      \<and> (\<not> prefix ''_progress_'' n \<longrightarrow>
            applied_set withPayload s' n \<noteq> None \<and> n \<notin> set (invoked (log s3)))"
    if H: "hands_off_units (Migrations m)"
  proof -
    from L H assms(3) d have rec: "disk s' dbutils_Migrations n \<noteq> None" by simp
    have "applied_set withPayload s' n \<noteq> None \<and> n \<notin> set (invoked (log s3))"
      if np: "\<not> prefix ''_progress_'' n"
    proof -
      from rec np have a: "applied_walk (disk s' dbutils_Migrations) wp n \<noteq> None" for wp
        by (auto simp: applied_walk_def)
      from Apply_run[OF assms(7) ne] assms(6) have
        "log s3 = [] \<or> (\<exists>sb r3 s4. log sb = [] \<and> log s3 = log s4 \<and>
            apply_loop E datadir2 (applied_walk (disk s2 dbutils_Migrations) False)
              (Migrations m) sb = (r3, s4))"
        by auto
      then have "n \<notin> set (invoked (log s3))"
      proof
        assume "log s3 = []"
        then show ?thesis by simp
      next
        assume "\<exists>sb r3 s4. log sb = [] \<and> log s3 = log s4 \<and>
            apply_loop E datadir2 (applied_walk (disk s2 dbutils_Migrations) False)
              (Migrations m) sb = (r3, s4)"
        then obtain sb r3 s4 where sb: "log sb = []" "log s3 = log s4"
          and loop2: "apply_loop E datadir2 (applied_walk (disk s2 dbutils_Migrations) False)
              (Migrations m) sb = (r3, s4)"
          by blast
        from apply_loop_log[OF loop2] sb have
          "\<forall>ev \<in> set (log s3). \<exists>v \<in> set (Migrations m).
              applied_walk (disk s2 dbutils_Migrations) False (Name v) = None
              \<and> event_name ev = Name v"
          by auto
        with a[of False] assms(5) have "\<forall>ev \<in> set (log s3). event_name ev \<noteq> n" by fastforce
        with invoked_names[of "log s3"] show ?thesis by auto
      qed
      with a[of withPayload] show ?thesis by (simp add: applied_set_eq)
    qed
    with rec show ?thesis by simp
  qed
  with r show ?thesis by simp
qed

theorem Apply_error_after_completion_witness:
  "log NewTestDB = []
   \<and> HandlerCalled ''one'' None True None
       \<in> set (log (snd (Apply test_env \<lparr>Migrations = [completes_then_fails ''one'']\<rparr>
                          NewTestDB [] False)))
   \<and> UpReturned ''one'' (Some (ErrUnit ''late''))
       \<in> set (log (snd (Apply test_env \<lparr>Migrations = [completes_then_fails ''one'']\<rparr>
                          NewTestDB [] False)))
   \<and> fst (Apply test_env \<lparr>Migrations = [completes_then_fails ''one'']\<rparr> NewTestDB [] False)
       = Some (ErrUnit ''late'')
   \<and> disk (snd (Apply test_env \<lparr>Migrations = [completes_then_fails ''one'']\<rparr>
                  NewTestDB [] False)) dbutils_Migrations ''one'' \<noteq> None
   \<and> \<not> prefix ''_progress_'' ''one''
   \<and> ''one'' \<notin> set (invoked (log (snd (Apply test_env
        \<lparr>Migrations = [completes_then_fails ''one'']\<rparr>
        ((snd (Apply test_env \<lparr>Migrations = [completes_then_fails ''one'']\<rparr>
                  NewTestDB [] False))\<lparr>log := []\<rparr>) [] True))))"
proof -
  let ?m = "\<lparr>Migrations = [completes_then_fails ''one'']\<rparr>"
  let ?s' = "snd (Apply test_env ?m NewTestDB [] False)"
  let ?s2 = "?s'\<lparr>log := []\<rparr>"
  let ?s3 = "snd (Apply test_env ?m ?s2 [] True)"
  have l0: "log NewTestDB = []" by (simp add: NewTestDB_def)
  have lg: "log ?s' = [UpCalled ''one'' None, HandlerCalled ''one'' None True None,
      UpReturned ''one'' (Some (ErrUnit ''late''))]"
    by (simp add: engine store_ops fixtures)
  have a: "Apply test_env ?m NewTestDB [] False = (fst (Apply test_env ?m NewTestDB [] False), ?s')"
    by simp
  have h: "HandlerCalled ''one'' None True None \<in> set (log ?s')" unfolding lg by simp
  have u: "UpReturned ''one'' (Some (ErrUnit ''late'')) \<in> set (log ?s')" unfolding lg by simp
  have d: "disk ?s2 = disk ?s'" by simp
  have l2: "log ?s2 = []" by simp
  have a2: "Apply test_env ?m ?s2 [] True = (fst (Apply test_env ?m ?s2 [] True), ?s3)"
    by simp
  have np: "\<not> prefix ''_progress_'' ''one''" by simp
  have ho: "hands_off_units (Migrations ?m)"
    by (simp add: hands_off_units_def completes_then_fails_def)
  from Apply_error_after_completion[OF l0 a h u d l2 a2, of True] ho l0 h u np
  show ?thesis by simp
qed

subsection \<open>Units that are applied already\<close>

text \<open>
  When no body writes the bucket of the engine by itself, the loop keeps a record that was
  listed, keeps an entry under a name without the prefix, and makes no entry under a name
  without the prefix that no unit to be run bears.
\<close>

lemma apply_loop_keeps_record:
  assumes loop: "apply_loop E dd applied ms s = (r, s')"
    and P: "applied_walk (disk s dbutils_Migrations) wp k = Some x"
      "applied_walk (tx s dbutils_Migrations) wp k = Some x"
    and ho: "hands_off_units ms"
    and k: "applied k \<noteq> None"
  shows "applied_walk (disk s' dbutils_Migrations) wp k = Some x
       \<and> applied_walk (tx s' dbutils_Migrations) wp k = Some x"
proof (rule apply_loop_keeps[of E dd applied ms s r s'
        "\<lambda>d. applied_walk (d dbutils_Migrations) wp k = Some x", OF loop P])
  show "\<And>v tmpdir progress. v \<in> set ms \<Longrightarrow> hands_off (Up v tmpdir progress)"
    using ho by (simp add: hands_off_units_def)
  show "\<And>v d k'. applied_walk (d dbutils_Migrations) wp k = Some x
      \<Longrightarrow> applied_walk (put (''_progress_'' @ Name v) k' d dbutils_Migrations) wp k = Some x"
    using applied_walk_prefix[of _ wp] by (auto simp: applied_walk_put)
  show "\<And>v d. applied_walk (d dbutils_Migrations) wp k = Some x
      \<Longrightarrow> applied_walk (del (''_progress_'' @ Name v) d dbutils_Migrations) wp k = Some x"
    using applied_walk_prefix[of _ wp] by (auto simp: applied_walk_del)
  show "\<And>d d'. d' dbutils_Migrations = d dbutils_Migrations
      \<Longrightarrow> applied_walk (d dbutils_Migrations) wp k = Some x
      \<Longrightarrow> applied_walk (d' dbutils_Migrations) wp k = Some x"
    by simp
  show "\<And>v d y. applied (Name v) = None \<Longrightarrow> applied_walk (d dbutils_Migrations) wp k = Some x
      \<Longrightarrow> applied_walk (put (Name v) y d dbutils_Migrations) wp k = Some x"
    using k by (auto simp: applied_walk_put)
qed

lemma hands_off_unitsD:
  "hands_off_units ms \<Longrightarrow> v \<in> set ms \<Longrightarrow> hands_off (Up v tmpdir progress)"
  by (simp add: hands_off_units_def)

lemma apply_loop_keeps_present:
  assumes loop: "apply_loop E dd applied ms s = (r, s')"
    and P: "disk s dbutils_Migrations k \<noteq> None" "tx s dbutils_Migrations k \<noteq> None"
    and ho: "hands_off_units ms"
    and k: "\<not> prefix ''_progress_'' k"
  shows "disk s' dbutils_Migrations k \<noteq> None \<and> tx s' dbutils_Migrations k \<noteq> None"
  by (rule apply_loop_keeps[of E dd applied ms s r s'
        "\<lambda>d. d dbutils_Migrations k \<noteq> None", OF loop P hands_off_unitsD[OF ho]])
    (use k in auto)

lemma apply_loop_keeps_absent:
  assumes loop: "apply_loop E dd applied ms s = (r, s')"
    and P: "disk s dbutils_Migrations k = None" "tx s dbutils_Migrations k = None"
    and ho: "hands_off_units ms"
    and k: "\<not> prefix ''_progress_'' k"
    and other: "\<forall>v \<in> set ms. applied (Name v) = None \<longrightarrow> Name v \<noteq> k"
  shows "disk s' dbutils_Migrations k = None \<and> tx s' dbutils_Migrations k = None"
  by (rule apply_loop_keeps[of E dd applied ms s r s'
        "\<lambda>d. d dbutils_Migrations k = None", OF loop P hands_off_unitsD[OF ho]])
    (use k other in auto)

lemma applied_walk_raw:
  "\<not> prefix ''_progress_'' k \<Longrightarrow> (applied_walk t wp k \<noteq> None) = (t k \<noteq> None)"
  by (simp add: applied_walk_def split: option.splits)

lemma applied_walk_not_None_prefix: "applied_walk t wp k \<noteq> None \<Longrightarrow> \<not> prefix ''_progress_'' k"
  by (auto simp: applied_walk_def split: option.splits if_splits)

text \<open>
  After a loop that ended without error on a working store, with such bodies, every
  registered name without the prefix has its record, in the transaction and in what is
  committed.
\<close>

lemma apply_loop_registered_present:
  assumes "faults s = []"
    and loop: "apply_loop E dd (applied_walk (disk s dbutils_Migrations) False) ms s = (None, s')"
    and tx: "tx s = disk s"
    and ho: "hands_off_units ms"
    and v: "v \<in> set ms" "\<not> prefix ''_progress_'' (Name v)"
  shows "disk s' dbutils_Migrations (Name v) \<noteq> None \<and> tx s' dbutils_Migrations (Name v) \<noteq> None"
proof (cases "applied_walk (disk s dbutils_Migrations) False (Name v)")
  case None
  with apply_loop_healthy[OF assms(1) loop hands_off_unitsD[OF ho]] v show ?thesis by blast
next
  case (Some a)
  then have "disk s dbutils_Migrations (Name v) \<noteq> None"
    using applied_walk_raw[OF v(2), of "disk s dbutils_Migrations" False] by simp
  with tx apply_loop_keeps_present[OF loop _ _ ho v(2)] show ?thesis by simp
qed

text \<open>
  Claim C3 says that a unit whose record is in the bucket before \<^verbatim>\<open>Apply\<close> runs is
  never run, and that the final applied-set holds the pre-marked name and every executed
  name. The first unit below has a name with the checkpoint prefix and a record under that
  name: \<^verbatim>\<open>Apply\<close> calls its body all the same, it completes, and the scan
  afterwards does not list it. In the second run the unit \<^verbatim>\<open>two\<close> is pre-marked
  and the body of \<^verbatim>\<open>one\<close> deletes that record through the transaction before
  it completes: \<^verbatim>\<open>Apply\<close> succeeds and the scan afterwards does not list
  \<^verbatim>\<open>two\<close>.
\<close>

theorem Apply_runs_prefixed_unit_with_record:
  "disk (db_Put dbutils_Migrations ''_progress_one'' [CHR 0x01] NewTestDB)
       dbutils_Migrations ''_progress_one'' \<noteq> None
   \<and> fst (Apply test_env \<lparr>Migrations = [completes ''_progress_one'']\<rparr>
        (db_Put dbutils_Migrations ''_progress_one'' [CHR 0x01] NewTestDB) [] False) = None
   \<and> invoked (log (snd (Apply test_env \<lparr>Migrations = [completes ''_progress_one'']\<rparr>
        (db_Put dbutils_Migrations ''_progress_one'' [CHR 0x01] NewTestDB) [] False)))
      = [''_progress_one'']
   \<and> applied_set False (snd (Apply test_env \<lparr>Migrations = [completes ''_progress_one'']\<rparr>
        (db_Put dbutils_Migrations ''_progress_one'' [CHR 0x01] NewTestDB) [] False))
        ''_progress_one'' = None
   \<and> applied_set False (db_Put dbutils_Migrations ''two'' [CHR 0x01] NewTestDB) ''two'' \<noteq> None
   \<and> fst (Apply test_env
        \<lparr>Migrations = [deletes_then_completes ''one'' ''two'', must_not_run ''two'']\<rparr>
        (db_Put dbutils_Migrations ''two'' [CHR 0x01] NewTestDB) [] False) = None
   \<and> invoked (log (snd (Apply test_env
        \<lparr>Migrations = [deletes_then_completes ''one'' ''two'', must_not_run ''two'']\<rparr>
        (db_Put dbutils_Migrations ''two'' [CHR 0x01] NewTestDB) [] False))) = [''one'']
   \<and> applied_set False (snd (Apply test_env
        \<lparr>Migrations = [deletes_then_completes ''one'' ''two'', must_not_run ''two'']\<rparr>
        (db_Put dbutils_Migrations ''two'' [CHR 0x01] NewTestDB) [] False)) ''two'' = None"
  by (simp add: engine store_ops fixtures)

text \<open>
  Claim C3, amended. A registered unit that the scan lists before \<^verbatim>\<open>Apply\<close> runs (it
  has a record and its name does not begin with the checkpoint prefix) is never run, and an
  \<^verbatim>\<open>Apply\<close> that succeeds has run all the other registered units, in the order of
  registration. When no body of a registered unit writes the bucket
  \<^verbatim>\<open>dbutils.Migrations\<close> by itself, the records listed before are listed afterwards
  with the same payload, and after an \<^verbatim>\<open>Apply\<close> that succeeds on a working store
  the names listed are exactly the names listed before and the names of the units run that
  do not begin with the prefix.
\<close>

theorem Apply_skips_applied:
  assumes "log s = []" "Apply E m s datadir mdbx = (r, s')"
  shows "(\<forall>v \<in> set (Migrations m). applied_set False s (Name v) \<noteq> None
            \<longrightarrow> Name v \<notin> set (invoked (log s')))
     \<and> (r = None \<longrightarrow> invoked (log s')
            = map Name (filter (\<lambda>v. applied_set False s (Name v) = None) (Migrations m)))
     \<and> (hands_off_units (Migrations m) \<longrightarrow>
          (\<forall>k x. applied_set withPayload s k = Some x \<longrightarrow> applied_set withPayload s' k = Some x)
          \<and> (r = None \<and> faults s = [] \<longrightarrow>
               (\<forall>k. (applied_set withPayload s' k \<noteq> None)
                   = (applied_set withPayload s k \<noteq> None
                       \<or> k \<in> set (invoked (log s')) \<and> \<not> prefix ''_progress_'' k))))"
proof (cases "Migrations m = []")
  case True
  with assms(2) have "s' = s" "r = None" by (simp_all add: Apply_def)
  with assms(1) True show ?thesis by simp
next
  case ne: False
  let ?A = "applied_walk (disk s dbutils_Migrations) False"
  let ?ms = "Migrations m"
  from Apply_run[OF assms(2) ne]
  consider (early) "r \<noteq> None" "disk s' = disk s" "log s' = log s"
    | (run) s2 r1 s1 where "tx s2 = disk s" "disk s2 = disk s" "log s2 = log s"
        "faults s = [] \<longrightarrow> faults s2 = []"
        "apply_loop E datadir ?A ?ms s2 = (r1, s1)" "log s' = log s1"
        "r1 \<noteq> None \<longrightarrow> r = r1 \<and> disk s' = disk s1"
        "r1 = None \<longrightarrow>
              r = None \<and> disk s' = (tx s1)(dbutils_DatabaseInfoBucket :=
                    (tx s1 dbutils_DatabaseInfoBucket)(dbutils_DBSchemaVersionKey E \<mapsto> schema_version E mdbx))
            \<or> r \<noteq> None \<and> disk s' = disk s1"
    by blast
  then show ?thesis
  proof cases
    case early
    with assms(1) show ?thesis by (auto simp: applied_set_eq)
  next
    case run
    note loop = run(5)
    from apply_loop_log[OF loop] run(3,6) assms(1) have
      names: "\<forall>e \<in> set (log s'). \<exists>v \<in> set ?ms. ?A (Name v) = None \<and> event_name e = Name v"
      and inv: "r1 = None \<longrightarrow> invoked (log s') = map Name (filter (\<lambda>v. ?A (Name v) = None) ?ms)"
      by auto
    have bucket: "disk s' dbutils_Migrations = disk s1 dbutils_Migrations
        \<or> disk s' dbutils_Migrations = tx s1 dbutils_Migrations"
      using run(7,8) by (cases r1) auto
    have succ: "r = None \<longrightarrow> r1 = None \<and> disk s' dbutils_Migrations = tx s1 dbutils_Migrations"
      using run(7,8) by (cases r1) auto
    have p1: "\<forall>v \<in> set ?ms. ?A (Name v) \<noteq> None \<longrightarrow> Name v \<notin> set (invoked (log s'))"
    proof (intro ballI impI)
      fix v assume "v \<in> set ?ms" and a: "?A (Name v) \<noteq> None"
      show "Name v \<notin> set (invoked (log s'))"
      proof
        assume "Name v \<in> set (invoked (log s'))"
        then obtain p where "UpCalled (Name v) p \<in> set (log s')"
          by (auto simp: invoked_UpCalled)
        with names obtain w :: Migration where
          "?A (Name w) = None" "event_name (UpCalled (Name v) p) = Name w"
          by blast
        with a show False by simp
      qed
    qed
    have p2: "\<forall>k x. applied_walk (disk s dbutils_Migrations) withPayload k = Some x
        \<longrightarrow> applied_walk (disk s' dbutils_Migrations) withPayload k = Some x"
      if H: "hands_off_units ?ms"
    proof (intro allI impI)
      fix k x assume a: "applied_walk (disk s dbutils_Migrations) withPayload k = Some x"
      then have "?A k \<noteq> None"
        using applied_walk_None_payload[of "disk s dbutils_Migrations" withPayload k] by simp
      from apply_loop_keeps_record[OF loop _ _ H this, of withPayload x] a run(1,2) bucket
      show "applied_walk (disk s' dbutils_Migrations) withPayload k = Some x" by auto
    qed
    have p3: "r = None \<longrightarrow> invoked (log s') = map Name (filter (\<lambda>v. ?A (Name v) = None) ?ms)"
      using succ inv by simp
    have p4: "(applied_walk (disk s' dbutils_Migrations) withPayload k \<noteq> None)
        = (applied_walk (disk s dbutils_Migrations) withPayload k \<noteq> None
            \<or> k \<in> set (invoked (log s')) \<and> \<not> prefix ''_progress_'' k)"
      if H: "hands_off_units ?ms" and ok: "r = None" "faults s = []" for k
    proof -
      from ok succ have r1: "r1 = None"
        and d: "disk s' dbutils_Migrations = tx s1 dbutils_Migrations" by simp_all
      from ok run(4) have h2: "faults s2 = []" by simp
      from loop r1 run(2) have loop': "apply_loop E datadir
          (applied_walk (disk s2 dbutils_Migrations) False) ?ms s2 = (None, s1)" by simp
      have txd: "tx s2 = disk s2" using run(1,2) by simp
      from inv r1 have iv: "set (invoked (log s'))
          = {Name v |v. v \<in> set ?ms \<and> ?A (Name v) = None}" by auto
      show ?thesis
      proof (cases "prefix ''_progress_'' k")
        case True
        then show ?thesis by (simp add: applied_walk_def split: option.splits)
      next
        case np: False
        show ?thesis
        proof (cases "\<exists>v \<in> set ?ms. Name v = k")
          case True
          then obtain v where v: "v \<in> set ?ms" "Name v = k" by blast
          from apply_loop_registered_present[OF h2 loop' txd H v(1)] np v(2)
          have "tx s1 dbutils_Migrations k \<noteq> None" by simp
          with d applied_walk_raw[OF np, of "tx s1 dbutils_Migrations" withPayload]
          have lhs: "applied_walk (disk s' dbutils_Migrations) withPayload k \<noteq> None"
            by simp
          have "applied_walk (disk s dbutils_Migrations) withPayload k \<noteq> None
              \<or> k \<in> set (invoked (log s'))"
            using v iv applied_walk_None_payload[of "disk s dbutils_Migrations" withPayload k]
            by auto
          with lhs np show ?thesis by simp
        next
          case False
          then have notin: "k \<notin> set (invoked (log s'))" using iv by auto
          show ?thesis
          proof (cases "disk s dbutils_Migrations k")
            case None
            from False have "\<forall>v \<in> set ?ms. ?A (Name v) = None \<longrightarrow> Name v \<noteq> k" by blast
            from apply_loop_keeps_absent[OF loop _ _ H np this] None run(1,2)
            have "tx s1 dbutils_Migrations k = None" by simp
            with d None notin show ?thesis by (simp add: applied_walk_def)
          next
            case (Some y)
            with np obtain x where "applied_walk (disk s dbutils_Migrations) withPayload k = Some x"
              by (cases withPayload) (simp_all add: applied_walk_def)
            with p2[OF H] show ?thesis by auto
          qed
        qed
      qed
    qed
    from p1 p2 p3 p4 show ?thesis by (simp add: applied_set_eq)
  qed
qed

theorem Apply_skips_applied_witness:
  "log (db_Put dbutils_Migrations ''two'' [CHR 0x01] NewTestDB) = []
   \<and> faults (db_Put dbutils_Migrations ''two'' [CHR 0x01] NewTestDB) = []
   \<and> fst (Apply test_env \<lparr>Migrations = [completes ''one'', must_not_run ''two'']\<rparr>
        (db_Put dbutils_Migrations ''two'' [CHR 0x01] NewTestDB) [] False) = None
   \<and> applied_set False (db_Put dbutils_Migrations ''two'' [CHR 0x01] NewTestDB)
        (Name (must_not_run ''two'')) \<noteq> None
   \<and> Name (must_not_run ''two'')
       \<notin> set (invoked (log (snd (Apply test_env
            \<lparr>Migrations = [completes ''one'', must_not_run ''two'']\<rparr>
            (db_Put dbutils_Migrations ''two'' [CHR 0x01] NewTestDB) [] False))))
   \<and> invoked (log (snd (Apply test_env
            \<lparr>Migrations = [completes ''one'', must_not_run ''two'']\<rparr>
            (db_Put dbutils_Migrations ''two'' [CHR 0x01] NewTestDB) [] False)))
      = [''one'']
   \<and> (applied_set False (snd (Apply test_env
            \<lparr>Migrations = [completes ''one'', must_not_run ''two'']\<rparr>
            (db_Put dbutils_Migrations ''two'' [CHR 0x01] NewTestDB) [] False)) ''one'' \<noteq> None)"
proof -
  let ?m = "\<lparr>Migrations = [completes ''one'', must_not_run ''two'']\<rparr>"
  let ?s = "db_Put dbutils_Migrations ''two'' [CHR 0x01] NewTestDB"
  let ?s' = "snd (Apply test_env ?m ?s [] False)"
  have l0: "log ?s = []" and f0: "faults ?s = []" by (simp_all add: fixtures)
  have ok: "fst (Apply test_env ?m ?s [] False) = None"
    by (simp add: engine store_ops fixtures)
  then have a: "Apply test_env ?m ?s [] False = (None, ?s')" by (metis prod.collapse)
  have pre: "applied_set False ?s (Name (must_not_run ''two'')) \<noteq> None"
    by (simp add: engine store_ops fixtures)
  have pend: "map Name (filter (\<lambda>v. applied_set False ?s (Name v) = None) (Migrations ?m))
      = [''one'']"
    by (simp add: engine store_ops fixtures)
  note T = Apply_skips_applied[OF l0 a, of False]
  have mem: "must_not_run ''two'' \<in> set (Migrations ?m)" by simp
  from T[THEN conjunct1] mem pre
  have t1: "Name (must_not_run ''two'') \<notin> set (invoked (log ?s'))" by blast
  have ho: "hands_off_units (Migrations ?m)"
    by (simp add: hands_off_units_def completes_def must_not_run_def)
  from T[THEN conjunct2, THEN conjunct1] pend
  have t3: "invoked (log ?s') = [''one'']" by simp
  from T[THEN conjunct2, THEN conjunct2] ho f0
  have "(applied_set False ?s' ''one'' \<noteq> None)
      = (applied_set False ?s ''one'' \<noteq> None
          \<or> ''one'' \<in> set (invoked (log ?s')) \<and> \<not> prefix ''_progress_'' ''one'')"
    by blast
  with t3 have t4: "applied_set False ?s' ''one'' \<noteq> None" by simp
  from l0 f0 ok pre t1 t3 t4 show ?thesis by blast
qed

subsection \<open>Apply, twice\<close>

lemma applied_walk_put_prefixed:
  "prefix ''_progress_'' k \<Longrightarrow> applied_walk (t(k \<mapsto> x)) wp = applied_walk t wp"
  by (rule ext) (simp add: applied_walk_def split: option.splits)

lemma applied_walk_del_prefixed:
  "prefix ''_progress_'' k \<Longrightarrow> applied_walk (t(k := None)) wp = applied_walk t wp"
  by (rule ext) (simp add: applied_walk_def split: option.splits)

lemma Apply_run_weak:
  assumes "Apply E m s dd mdbx = (r, s')" "Migrations m \<noteq> []"
  shows "(disk s' = disk s \<and> log s' = log s) \<or>
     (\<exists>s2 r1 s1. tx s2 = disk s \<and> disk s2 = disk s \<and> log s2 = log s
        \<and> apply_loop E dd (applied_walk (disk s dbutils_Migrations) False) (Migrations m) s2 = (r1, s1)
        \<and> log s' = log s1
        \<and> (disk s' = disk s1 \<or> disk s' = (tx s1)(dbutils_DatabaseInfoBucket :=
                    (tx s1 dbutils_DatabaseInfoBucket)(dbutils_DBSchemaVersionKey E \<mapsto> schema_version E mdbx))))"
  using Apply_run[OF assms]
proof (elim disjE exE conjE)
  assume "disk s' = disk s" "log s' = log s"
  then show ?thesis by simp
next
  fix s2 r1 s1
  assume a: "tx s2 = disk s" "disk s2 = disk s" "log s2 = log s"
    "apply_loop E dd (applied_walk (disk s dbutils_Migrations) False) (Migrations m) s2 = (r1, s1)"
    "log s' = log s1"
    and c1: "r1 \<noteq> None \<longrightarrow> r = r1 \<and> disk s' = disk s1"
    and c2: "r1 = None \<longrightarrow>
              r = None \<and> disk s' = (tx s1)(dbutils_DatabaseInfoBucket :=
                    (tx s1 dbutils_DatabaseInfoBucket)(dbutils_DBSchemaVersionKey E \<mapsto> schema_version E mdbx))
            \<or> r \<noteq> None \<and> disk s' = disk s1"
  from c1 c2 have "disk s' = disk s1 \<or> disk s' = (tx s1)(dbutils_DatabaseInfoBucket :=
                    (tx s1 dbutils_DatabaseInfoBucket)(dbutils_DBSchemaVersionKey E \<mapsto> schema_version E mdbx))"
    by (cases r1) auto
  with a show ?thesis by blast
qed

text \<open>
  Claim C2 says that two calls of \<^verbatim>\<open>Apply\<close> in succession yield the same
  applied-set and that the second is a no-op but for the schema version. In the first list
  below both bodies signal completion, and the body of \<^verbatim>\<open>two\<close> first deletes the
  record of \<^verbatim>\<open>one\<close> through the transaction: both calls succeed, the scan lists
  no \<^verbatim>\<open>one\<close> after the first call and lists it after the second. The second list
  has one unit, with a name that begins with the checkpoint prefix: the second call runs
  its body again.
\<close>

theorem Apply_twice_differs:
  "fst (Apply test_env \<lparr>Migrations = [completes ''one'', deletes_then_completes ''two'' ''one'']\<rparr>
          NewTestDB [] False) = None
   \<and> applied_set False
        (snd (Apply test_env
            \<lparr>Migrations = [completes ''one'', deletes_then_completes ''two'' ''one'']\<rparr>
            NewTestDB [] False)) ''one'' = None
   \<and> fst (Apply test_env \<lparr>Migrations = [completes ''one'', deletes_then_completes ''two'' ''one'']\<rparr>
        (snd (Apply test_env
            \<lparr>Migrations = [completes ''one'', deletes_then_completes ''two'' ''one'']\<rparr>
            NewTestDB [] False)) [] False) = None
   \<and> applied_set False
        (snd (Apply test_env
            \<lparr>Migrations = [completes ''one'', deletes_then_completes ''two'' ''one'']\<rparr>
            (snd (Apply test_env
                \<lparr>Migrations = [completes ''one'', deletes_then_completes ''two'' ''one'']\<rparr>
                NewTestDB [] False)) [] False)) ''one'' \<noteq> None
   \<and> fst (Apply test_env \<lparr>Migrations = [completes ''_progress_x'']\<rparr> NewTestDB [] False) = None
   \<and> invoked (log (snd (Apply test_env \<lparr>Migrations = [completes ''_progress_x'']\<rparr>
        ((snd (Apply test_env \<lparr>Migrations = [completes ''_progress_x'']\<rparr>
                  NewTestDB [] False))\<lparr>log := []\<rparr>) [] False)))
     = [''_progress_x'']"
  by (simp add: engine store_ops fixtures)

text \<open>
  Claim C2, amended. Let no body of a registered unit write the bucket
  \<^verbatim>\<open>dbutils.Migrations\<close> by itself. After an \<^verbatim>\<open>Apply\<close> that succeeded on a
  working store, a second \<^verbatim>\<open>Apply\<close> of the same list on what is committed leaves
  the applied-set as it is: the scan returns the same names with the same payloads,
  whether the second call succeeds or not. No unit whose name is without the checkpoint
  prefix is run again; and when no registered name has the prefix, the second call runs no
  unit at all and changes nothing but the schema version. A first \<^verbatim>\<open>Apply\<close>
  succeeds only when the names are unique.
\<close>

theorem Apply_twice:
  assumes "faults s = []" "Apply E m s datadir mdbx = (None, s1)"
    and "disk s2 = disk s1" "Apply E m s2 datadir2 mdbx2 = (r, s3)" "log s3 = log s2 @ evs"
    and H: "hands_off_units (Migrations m)"
  shows "applied_set withPayload s3 = applied_set withPayload s1
     \<and> distinct (map Name (Migrations m))
     \<and> (\<forall>v \<in> set (Migrations m). \<not> prefix ''_progress_'' (Name v) \<longrightarrow>
           applied_set withPayload s1 (Name v) \<noteq> None \<and> Name v \<notin> set (invoked evs))
     \<and> ((\<forall>v \<in> set (Migrations m). \<not> prefix ''_progress_'' (Name v)) \<longrightarrow>
           evs = [] \<and> (\<forall>b k. (b, k) \<noteq> (dbutils_DatabaseInfoBucket, dbutils_DBSchemaVersionKey E)
              \<longrightarrow> disk s3 b k = disk s1 b k))"
proof (cases "Migrations m = []")
  case True
  with assms(2,4) have "s1 = s" "s3 = s2" by (simp_all add: Apply_def)
  with assms(3,5) True show ?thesis by (simp add: applied_set_eq)
next
  case ne: False
  let ?ms = "Migrations m"
  let ?M = dbutils_Migrations
  from Apply_run[OF assms(2) ne] obtain sa r1 s1a where
    dist: "distinct (map Name ?ms)"
    and sa0: "tx sa = disk s" "disk sa = disk s" "faults s = [] \<longrightarrow> faults sa = []"
    and loop0: "apply_loop E datadir (applied_walk (disk s ?M) False) ?ms sa = (r1, s1a)"
    and c1: "r1 \<noteq> None \<longrightarrow> None = r1 \<and> disk s1 = disk s1a"
    and c2: "r1 = None \<longrightarrow>
        None = None \<and> disk s1 = (tx s1a)(dbutils_DatabaseInfoBucket :=
            (tx s1a dbutils_DatabaseInfoBucket)(dbutils_DBSchemaVersionKey E \<mapsto> schema_version E mdbx))
        \<or> None \<noteq> None \<and> disk s1 = disk s1a"
    by blast
  from c1 have r1: "r1 = None" by (cases r1) auto
  with c2 have d1: "disk s1 ?M = tx s1a ?M" by auto
  from loop0 r1 have loop: "apply_loop E datadir (applied_walk (disk s ?M) False) ?ms sa
      = (None, s1a)" by simp
  from sa0 assms(1) have sa: "tx sa = disk s" "disk sa = disk s" "faults sa = []" by simp_all
  from loop sa(2) have loop': "apply_loop E datadir (applied_walk (disk sa ?M) False) ?ms sa
      = (None, s1a)" by simp
  have txd: "tx sa = disk sa" using sa by simp
  have F: "applied_walk (disk s1 ?M) wp (Name v) \<noteq> None"
    if "v \<in> set ?ms" "\<not> prefix ''_progress_'' (Name v)" for v wp
    using apply_loop_registered_present[OF sa(3) loop' txd H that] d1
      applied_walk_raw[OF that(2), of "disk s1 ?M" wp] by simp
  let ?A2 = "applied_walk (disk s2 ?M) False"
  from Apply_run_weak[OF assms(4) ne]
  consider (early) "disk s3 = disk s2" "log s3 = log s2"
    | (run) sb r3 s4 where "tx sb = disk s2" "disk sb = disk s2" "log sb = log s2"
        "apply_loop E datadir2 ?A2 ?ms sb = (r3, s4)" "log s3 = log s4"
        "disk s3 = disk s4 \<or> disk s3 = (tx s4)(dbutils_DatabaseInfoBucket :=
            (tx s4 dbutils_DatabaseInfoBucket)(dbutils_DBSchemaVersionKey E \<mapsto> schema_version E mdbx2))"
    by blast
  then show ?thesis
  proof cases
    case early
    with assms(3,5) dist F show ?thesis by (simp add: applied_set_eq)
  next
    case run
    note loop2 = run(4)
    from apply_loop_log[OF loop2] run(3,5) assms(5) have
      names: "\<forall>e \<in> set evs. \<exists>v \<in> set ?ms. ?A2 (Name v) = None \<and> event_name e = Name v"
      by auto
    have pend: "prefix ''_progress_'' (Name v)" if "v \<in> set ?ms" "?A2 (Name v) = None" for v
      using F[OF that(1), of False] that(2) assms(3) by auto
    let ?P = "\<lambda>d. applied_walk (d ?M) withPayload = applied_walk (disk s1 ?M) withPayload"
    have P0: "?P (disk sb)" "?P (tx sb)" using run(1,2) assms(3) by simp_all
    have "?P (disk s4) \<and> ?P (tx s4)"
    proof (rule apply_loop_keeps[of E datadir2 ?A2 ?ms sb r3 s4 ?P, OF loop2 P0
          hands_off_unitsD[OF H]])
      show "\<And>v d k. ?P d \<Longrightarrow> ?P (put (''_progress_'' @ Name v) k d)"
        by (simp add: applied_walk_put_prefixed)
      show "\<And>v d. ?P d \<Longrightarrow> ?P (del (''_progress_'' @ Name v) d)"
        by (simp add: applied_walk_del_prefixed)
      show "\<And>d d'. d' ?M = d ?M \<Longrightarrow> ?P d \<Longrightarrow> ?P d'"
        by simp
      show "\<And>v d x. v \<in> set ?ms \<Longrightarrow> ?A2 (Name v) = None \<Longrightarrow> ?P d \<Longrightarrow> ?P (put (Name v) x d)"
        using pend by (simp add: applied_walk_put_prefixed)
    qed
    with run(6) have c1: "applied_walk (disk s3 ?M) withPayload
        = applied_walk (disk s1 ?M) withPayload" by auto
    have c2: "Name v \<notin> set (invoked evs)"
      if v: "v \<in> set ?ms" "\<not> prefix ''_progress_'' (Name v)" for v
    proof
      assume "Name v \<in> set (invoked evs)"
      then obtain p where "UpCalled (Name v) p \<in> set evs" by (auto simp: invoked_UpCalled)
      with names obtain w :: Migration where
        "w \<in> set ?ms" "?A2 (Name w) = None" "event_name (UpCalled (Name v) p) = Name w"
        by blast
      with pend[of w] v(2) show False by simp
    qed
    have c3: "evs = [] \<and> (\<forall>b k. (b, k) \<noteq> (dbutils_DatabaseInfoBucket, dbutils_DBSchemaVersionKey E)
              \<longrightarrow> disk s3 b k = disk s1 b k)"
      if all: "\<forall>v \<in> set ?ms. \<not> prefix ''_progress_'' (Name v)"
    proof -
      from all pend have "\<forall>v \<in> set ?ms. ?A2 (Name v) \<noteq> None" by blast
      from apply_loop_all_applied[OF this, of E datadir2 sb] loop2 have "s4 = sb" by simp
      with run(1,2,3,5,6) assms(3,5) show ?thesis by auto
    qed
    from c1 dist F c2 c3 show ?thesis by (simp add: applied_set_eq)
  qed
qed

theorem Apply_twice_witness:
  "faults NewTestDB = []
   \<and> fst (Apply test_env \<lparr>Migrations = [completes ''one'', completes ''two'']\<rparr>
        NewTestDB [] False) = None
   \<and> applied_set True (snd (Apply test_env \<lparr>Migrations = [completes ''one'', completes ''two'']\<rparr>
        (snd (Apply test_env \<lparr>Migrations = [completes ''one'', completes ''two'']\<rparr>
                NewTestDB [] False)) [] False))
     = applied_set True (snd (Apply test_env \<lparr>Migrations = [completes ''one'', completes ''two'']\<rparr>
        NewTestDB [] False))
   \<and> applied_set True (snd (Apply test_env \<lparr>Migrations = [completes ''one'', completes ''two'']\<rparr>
        NewTestDB [] False)) (Name (completes ''two'')) \<noteq> None
   \<and> \<not> prefix ''_progress_'' (Name (completes ''one''))
   \<and> \<not> prefix ''_progress_'' (Name (completes ''two''))
   \<and> log (snd (Apply test_env \<lparr>Migrations = [completes ''one'', completes ''two'']\<rparr>
        (snd (Apply test_env \<lparr>Migrations = [completes ''one'', completes ''two'']\<rparr>
                NewTestDB [] False)) [] False))
     = log (snd (Apply test_env \<lparr>Migrations = [completes ''one'', completes ''two'']\<rparr>
        NewTestDB [] False))"
proof -
  let ?m = "\<lparr>Migrations = [completes ''one'', completes ''two'']\<rparr>"
  let ?s1 = "snd (Apply test_env ?m NewTestDB [] False)"
  let ?s3 = "snd (Apply test_env ?m ?s1 [] False)"
  have f0: "faults NewTestDB = []" by (simp add: NewTestDB_def)
  have ok: "fst (Apply test_env ?m NewTestDB [] False) = None"
    by (simp add: engine store_ops fixtures)
  then have a1: "Apply test_env ?m NewTestDB [] False = (None, ?s1)" by (metis prod.collapse)
  have a2: "Apply test_env ?m ?s1 [] False = (fst (Apply test_env ?m ?s1 [] False), ?s3)"
    by simp
  have "log ?s3 = log ?s1" by (simp add: engine store_ops fixtures)
  then have l: "log ?s3 = log ?s1 @ []" by simp
  have np: "\<forall>v \<in> set (Migrations ?m). \<not> prefix ''_progress_'' (Name v)"
    by (simp add: completes_def)
  have mem: "completes ''two'' \<in> set (Migrations ?m)" by simp
  have ho: "hands_off_units (Migrations ?m)"
    by (simp add: hands_off_units_def completes_def)
  note T = Apply_twice[OF f0 a1 refl a2 l ho, of True]
  from T[THEN conjunct1] have t1: "applied_set True ?s3 = applied_set True ?s1" .
  from T[THEN conjunct2, THEN conjunct2, THEN conjunct1] mem np
  have t2: "applied_set True ?s1 (Name (completes ''two'')) \<noteq> None" by blast
  from l have t3: "log ?s3 = log ?s1" by simp
  from np have n1: "\<not> prefix ''_progress_'' (Name (completes ''one''))"
    and n2: "\<not> prefix ''_progress_'' (Name (completes ''two''))" by simp_all
  from f0 ok t1 t2 n1 n2 t3 show ?thesis by blast
qed

subsection \<open>The unit that removes the Clique bucket\<close>

text \<open>
  On a store that works, and when its own two bucket operations do not fail, the unit
  passes the check of the loop: on both of its ways it ends with a completion call.
\<close>

lemma run_completion_healthy:
  assumes "faults s = []"
  shows "\<exists>s'. run_up E n (OnLoadCommit None True Return) (c, s) = (None, True, s')"
proof -
  obtain r c' s1 where h: "commit_handler E n None True (c, s) = (r, c', s1)"
    by (metis prod_cases3)
  from handler_healthy[OF assms h] handler_flag_log[OF h] h show ?thesis by simp
qed

lemma removeCliqueBucket_passes:
  assumes "faults s = []"
    and "\<And>d. \<exists>b. BucketExists dbutils_CliqueBucket d = Inr b"
    and "\<And>d. \<exists>d'. DropBuckets dbutils_CliqueBucket d = Inr d'"
  shows "fst (apply_unit E datadir (removeCliqueBucket BucketExists DropBuckets) s) = None"
proof -
  let ?n = "''remove_clique_bucket''"
  let ?p = "tx s dbutils_Migrations (''_progress_'' @ ?n)"
  let ?s1 = "s\<lparr>log := log s @ [UpCalled ?n ?p]\<rparr>"
  obtain b where b: "BucketExists dbutils_CliqueBucket (tx s) = Inr b" using assms(2) by blast
  obtain d' where d': "DropBuckets dbutils_CliqueBucket (tx s) = Inr d'" using assms(3) by blast
  have f1: "faults ?s1 = []" using assms(1) by simp
  have f2: "faults (?s1\<lparr>tx := d'\<rparr>) = []" using assms(1) by simp
  obtain sa where a: "run_up E ?n (OnLoadCommit None True Return) (False, ?s1) = (None, True, sa)"
    using run_completion_healthy[OF f1] by blast
  obtain sb where c: "run_up E ?n (OnLoadCommit None True Return)
      (False, ?s1\<lparr>tx := d'\<rparr>) = (None, True, sb)"
    using run_completion_healthy[OF f2] by blast
  show ?thesis
    using a c b d' assms(1)
    by (cases b) (simp_all add: apply_unit_def removeCliqueBucket_def tx_GetOne_healthy
        del: run_up.simps(2))
qed

end
